theory Spec2Isabelle
  imports Complex_Main "HOL-Library.Multiset"
begin

section \<open>K-Means clustering of embedding vectors (src/lib/kmeans.ts)\<close>

subsection \<open>Numbers\<close>

text \<open>
  A JavaScript \<^verbatim>\<open>number\<close> is an IEEE 754 double. It is modelled by the type
  \<open>jsnum\<close>: a finite double is the real it stands for, and the three special values of
  the language are constructors of their own. The two zeros are one (\<open>Fin 0\<close>; a
  division by 0 is one by \<open>+0\<close>): no operation of this file divides by a zero that
  could be negative. \<^verbatim>\<open>undefined\<close>, which a read past the end of an array yields,
  turns into \<open>NaN\<close> in every arithmetic context this file has it in, so such a read
  is modelled by \<open>num_at\<close>, which gives \<open>NaN\<close> there.
\<close>

datatype jsnum = Fin real | PInf | NInf | NaN

text \<open>
  The result of an operation is the exact result rounded to the nearest double, ties
  to the even significand. \<open>rne\<close> rounds a real to the nearest integer, ties to the even
  one. \<open>ulp x\<close> is the distance between neighbouring doubles at the magnitude of \<open>x\<close>:
  2 to the power \<open>e - 52\<close> when \<open>\<bar>x\<bar>\<close> is at least 2 to the power \<open>e\<close> and below 2 to
  the power \<open>e + 1\<close>, and 2 to the power \<open>- 1074\<close> in the subnormal range.
  \<open>double_round x\<close> is the double nearest to \<open>x\<close>; a result that rounds to 2 to the
  power 1024 or beyond overflows to the infinity of its sign.
\<close>

definition rne :: "real \<Rightarrow> int" where
  "rne z =
     (let f = \<lfloor>z\<rfloor>
      in if z - of_int f < 1 / 2 then f
         else if 1 / 2 < z - of_int f then f + 1
         else if even f then f else f + 1)"

definition ulp :: "real \<Rightarrow> real" where
  "ulp x = 2 powr of_int (max (\<lfloor>log 2 \<bar>x\<bar>\<rfloor> - 52) (- 1074))"

definition double_round :: "real \<Rightarrow> jsnum" where
  "double_round x =
     (if x = 0 then Fin 0
      else let y = of_int (rne (x / ulp x)) * ulp x
           in if 2 ^ 1024 \<le> \<bar>y\<bar> then (if 0 < x then PInf else NInf) else Fin y)"

text \<open>
  Every finite double is a multiple of the smallest positive one, 2 to the power
  \<open>- 1074\<close>. \<open>on_grid x\<close> says that \<open>x\<close> is no finite number off that grid, which
  holds of every result of an operation below.
\<close>

definition on_grid :: "jsnum \<Rightarrow> bool" where
  "on_grid x = (\<forall>y. x = Fin y \<longrightarrow> (\<exists>k::int. y = of_int k * 2 powr (- 1074)))"

text \<open>A large double, about \<open>5.26e210\<close>: its square overflows.\<close>

definition huge :: real where
  "huge = 2 ^ 700"

datatype error = TypeError | NotEnoughVectors

fun jsgn :: "jsnum \<Rightarrow> real" where
  "jsgn (Fin a) = sgn a"
| "jsgn PInf = 1"
| "jsgn NInf = - 1"
| "jsgn NaN = 0"

fun jneg :: "jsnum \<Rightarrow> jsnum" where
  "jneg (Fin a) = Fin (- a)"
| "jneg PInf = NInf"
| "jneg NInf = PInf"
| "jneg NaN = NaN"

fun jadd :: "jsnum \<Rightarrow> jsnum \<Rightarrow> jsnum" where
  "jadd (Fin a) (Fin b) = double_round (a + b)"
| "jadd NaN y = NaN"
| "jadd x NaN = NaN"
| "jadd PInf NInf = NaN"
| "jadd NInf PInf = NaN"
| "jadd PInf y = PInf"
| "jadd x PInf = PInf"
| "jadd NInf y = NInf"
| "jadd x NInf = NInf"

definition jsub :: "jsnum \<Rightarrow> jsnum \<Rightarrow> jsnum" where
  "jsub x y = jadd x (jneg y)"

fun jmul :: "jsnum \<Rightarrow> jsnum \<Rightarrow> jsnum" where
  "jmul (Fin a) (Fin b) = double_round (a * b)"
| "jmul NaN y = NaN"
| "jmul x NaN = NaN"
| "jmul x y =
     (if jsgn x * jsgn y = 0 then NaN else if 0 < jsgn x * jsgn y then PInf else NInf)"

fun jdiv :: "jsnum \<Rightarrow> jsnum \<Rightarrow> jsnum" where
  "jdiv (Fin a) (Fin b) =
     (if b = 0 then (if a = 0 then NaN else if 0 < a then PInf else NInf)
      else double_round (a / b))"
| "jdiv NaN y = NaN"
| "jdiv x NaN = NaN"
| "jdiv (Fin a) y = Fin 0"
| "jdiv x (Fin b) = (if 0 \<le> jsgn x * (if b < 0 then - 1 else 1) then PInf else NInf)"
| "jdiv x y = NaN"

text \<open>\<^verbatim>\<open>Math.sqrt\<close>, correctly rounded as IEEE 754 has it.\<close>

fun jsqrt :: "jsnum \<Rightarrow> jsnum" where
  "jsqrt (Fin a) = (if a < 0 then NaN else double_round (sqrt a))"
| "jsqrt PInf = PInf"
| "jsqrt NInf = NaN"
| "jsqrt NaN = NaN"

fun jlt :: "jsnum \<Rightarrow> jsnum \<Rightarrow> bool" where
  "jlt (Fin a) (Fin b) = (a < b)"
| "jlt NaN y = False"
| "jlt x NaN = False"
| "jlt x NInf = False"
| "jlt PInf y = False"
| "jlt x y = True"

fun jle :: "jsnum \<Rightarrow> jsnum \<Rightarrow> bool" where
  "jle (Fin a) (Fin b) = (a \<le> b)"
| "jle NaN y = False"
| "jle x NaN = False"
| "jle NInf y = True"
| "jle x PInf = True"
| "jle x y = False"

text \<open>Comparisons. Strict equality \<^verbatim>\<open>===\<close> on numbers: \<open>NaN\<close> equals nothing, itself included.\<close>

definition jeq :: "jsnum \<Rightarrow> jsnum \<Rightarrow> bool" where
  "jeq x y = (x \<noteq> NaN \<and> x = y)"

text \<open>\<^verbatim>\<open>Math.min(...xs)\<close>: \<open>Infinity\<close> for no argument, \<open>NaN\<close> as soon as one argument is.\<close>

definition jmin2 :: "jsnum \<Rightarrow> jsnum \<Rightarrow> jsnum" where
  "jmin2 x y = (if x = NaN \<or> y = NaN then NaN else if jlt y x then y else x)"

definition math_min :: "jsnum list \<Rightarrow> jsnum" where
  "math_min xs = foldl jmin2 PInf xs"

text \<open>\<^verbatim>\<open>v[i]\<close> read as a number.\<close>

definition num_at :: "jsnum list \<Rightarrow> nat \<Rightarrow> jsnum" where
  "num_at v i = (if i < length v then v ! i else NaN)"

text \<open>The finite numbers.\<close>

fun is_fin :: "jsnum \<Rightarrow> bool" where
  "is_fin (Fin a) = True"
| "is_fin x = False"

subsection \<open>Distance and similarity\<close>

text \<open>
  \<^verbatim>\<open>euclideanDistance\<close> (lines 52-59): the loop runs over the indices of \<open>a\<close> and
  reads \<open>b\<close> at each of them, whatever the length of \<open>b\<close>.
\<close>

definition euclideanDistance :: "jsnum list \<Rightarrow> jsnum list \<Rightarrow> jsnum" where
  "euclideanDistance a b =
     jsqrt (foldl (\<lambda>sum i. let diff = jsub (num_at a i) (num_at b i) in jadd sum (jmul diff diff))
              (Fin 0) [0..<length a])"

text \<open>\<^verbatim>\<open>cosineSimilarity\<close> (lines 64-77). The three accumulators of its loop:\<close>

definition dotProduct :: "jsnum list \<Rightarrow> jsnum list \<Rightarrow> jsnum" where
  "dotProduct a b =
     foldl (\<lambda>acc i. jadd acc (jmul (num_at a i) (num_at b i))) (Fin 0) [0..<length a]"

definition normA :: "jsnum list \<Rightarrow> jsnum list \<Rightarrow> jsnum" where
  "normA a b =
     foldl (\<lambda>acc i. jadd acc (jmul (num_at a i) (num_at a i))) (Fin 0) [0..<length a]"

definition normB :: "jsnum list \<Rightarrow> jsnum list \<Rightarrow> jsnum" where
  "normB a b =
     foldl (\<lambda>acc i. jadd acc (jmul (num_at b i) (num_at b i))) (Fin 0) [0..<length a]"

definition magnitude :: "jsnum list \<Rightarrow> jsnum list \<Rightarrow> jsnum" where
  "magnitude a b = jmul (jsqrt (normA a b)) (jsqrt (normB a b))"

definition cosineSimilarity :: "jsnum list \<Rightarrow> jsnum list \<Rightarrow> jsnum" where
  "cosineSimilarity a b =
     (if jeq (magnitude a b) (Fin 0) then Fin 0
      else jdiv (dotProduct a b) (magnitude a b))"

subsection \<open>Assignment\<close>

text \<open>
  \<^verbatim>\<open>assignToCentroid\<close> (lines 82-95): the loop state is the pair of \<open>minDist\<close>
  (initially \<open>Infinity\<close>) and \<open>assignment\<close> (initially 0).
\<close>

definition assignStep :: "jsnum list \<Rightarrow> jsnum list list \<Rightarrow> jsnum \<times> nat \<Rightarrow> nat \<Rightarrow> jsnum \<times> nat" where
  "assignStep vector centroids st i =
     (let dist = euclideanDistance vector (centroids ! i)
      in if jlt dist (fst st) then (dist, i) else st)"

definition assignToCentroid :: "jsnum list \<Rightarrow> jsnum list list \<Rightarrow> nat" where
  "assignToCentroid vector centroids =
     snd (foldl (assignStep vector centroids) (PInf, 0) [0..<length centroids])"

subsection \<open>The random source\<close>

text \<open>
  \<^verbatim>\<open>Math.random()\<close> is modelled by an explicit source: a sequence \<open>g\<close> of reals and
  the number \<open>s\<close> of draws made so far, so that the next draw is made from \<open>g s\<close>. Every
  function that draws returns the updated count. \<open>fair g\<close> says that the source
  behaves as the language promises: every draw lies in \<open>[0, 1)\<close>.
\<close>

definition fair :: "(nat \<Rightarrow> real) \<Rightarrow> bool" where
  "fair g = (\<forall>i. 0 \<le> g i \<and> g i < 1)"

text \<open>The source whose every draw is \<open>x\<close>.\<close>

fun always :: "real \<Rightarrow> nat \<Rightarrow> real" where
  "always x i = x"

text \<open>
  The number that \<^verbatim>\<open>Math.random()\<close> returns is a double: the real of the source
  rounded down to the nearest double (\<open>double_floor\<close>), so that every double in
  \<open>[0, 1)\<close> is the draw of some source.
\<close>

definition double_floor :: "real \<Rightarrow> real" where
  "double_floor x = (if x = 0 then 0 else of_int \<lfloor>x / ulp x\<rfloor> * ulp x)"

definition math_random :: "(nat \<Rightarrow> real) \<Rightarrow> nat \<Rightarrow> real" where
  "math_random g s = double_floor (g s)"

text \<open>
  \<^verbatim>\<open>Math.floor(Math.random() * n)\<close> used as an index into an array of length \<open>n\<close>:
  \<open>None\<close> when the read gives \<^verbatim>\<open>undefined\<close>. An array of the language has fewer
  than 2 to the power 32 elements, and the product of the draw and its length is rounded
  as every product is. A longer list stands for no array of the language; for it the
  product is left as it is.
\<close>

definition randomIdx :: "(nat \<Rightarrow> real) \<Rightarrow> nat \<Rightarrow> nat \<Rightarrow> nat option" where
  "randomIdx g s n =
     (case (if n < 2 ^ 32 then jmul (Fin (math_random g s)) (Fin (real n))
            else Fin (math_random g s * real n)) of
        Fin p \<Rightarrow> (let i = \<lfloor>p\<rfloor> in if 0 \<le> i \<and> i < int n then Some (nat i) else None)
      | _ \<Rightarrow> None)"

subsection \<open>Seeding (K-Means++)\<close>

text \<open>The weights of one round (lines 29-32) and their sum (line 34).\<close>

definition seedDistances :: "jsnum list list \<Rightarrow> jsnum list list \<Rightarrow> jsnum list" where
  "seedDistances vectors centroids =
     map (\<lambda>v. let minDist = math_min (map (\<lambda>c. euclideanDistance v c) centroids)
              in jmul minDist minDist) vectors"

definition totalDist :: "jsnum list \<Rightarrow> jsnum" where
  "totalDist distances = foldl jadd (Fin 0) distances"

text \<open>
  The inner loop (lines 37-43) over the weights from index \<open>j\<close> on: the index whose
  vector is pushed, or \<open>None\<close> when the loop ends without a push.
\<close>

fun pickIndex :: "jsnum list \<Rightarrow> jsnum \<Rightarrow> nat \<Rightarrow> nat option" where
  "pickIndex [] r j = None"
| "pickIndex (d # ds) r j =
     (let r' = jsub r d
      in if jle r' (Fin 0) then Some j else pickIndex ds r' (Suc j))"

text \<open>The outer loop (lines 28-44), from \<open>i\<close> on.\<close>

function seedLoop ::
  "jsnum list list \<Rightarrow> nat \<Rightarrow> (nat \<Rightarrow> real) \<Rightarrow> nat \<Rightarrow> jsnum list list \<Rightarrow> nat
     \<Rightarrow> jsnum list list \<times> nat" where
  "seedLoop vectors k g i centroids s =
     (if i < k then
        (let distances = seedDistances vectors centroids;
             r = jmul (Fin (math_random g s)) (totalDist distances);
             centroids' = (case pickIndex distances r 0 of
                             Some j \<Rightarrow> centroids @ [vectors ! j]
                           | None \<Rightarrow> centroids)
         in seedLoop vectors k g (Suc i) centroids' (Suc s))
      else (centroids, s))"
  by pat_completeness auto
termination
  by (relation "measure (\<lambda>(vectors, k, g, i, centroids, s). k - i)") auto

text \<open>
  \<^verbatim>\<open>initializeCentroids\<close> (lines 18-47). \<^verbatim>\<open>vectors[0].length\<close> throws a
  \<^verbatim>\<open>TypeError\<close> on an empty input, and so does the spread of an undefined element.
\<close>

definition initializeCentroids ::
  "jsnum list list \<Rightarrow> nat \<Rightarrow> (nat \<Rightarrow> real) \<Rightarrow> nat \<Rightarrow> error + (jsnum list list \<times> nat)" where
  "initializeCentroids vectors k g s =
     (if vectors = [] then Inl TypeError
      else case randomIdx g s (length vectors) of
             None \<Rightarrow> Inl TypeError
           | Some firstIdx \<Rightarrow> Inr (seedLoop vectors k g 1 [vectors ! firstIdx] (Suc s)))"

subsection \<open>Centroid update\<close>

text \<open>
  \<^verbatim>\<open>recalculateCentroids\<close> (lines 100-129). One pass of the first loop (lines 110-116)
  on the pair of \<open>counts\<close> and \<open>sums\<close> (\<open>dimn\<close> is the parameter \<open>dim\<close>). When \<open>assignments[i]\<close> is no index below
  \<open>k\<close>, \<open>sums[cluster]\<close> is undefined: indexing it throws as soon as the inner loop
  runs once; with \<open>dim = 0\<close> only \<open>counts\<close> gets a property outside \<open>0..k-1\<close>, which
  nothing reads.
\<close>

definition accumulate ::
  "jsnum list list \<Rightarrow> nat list \<Rightarrow> nat \<Rightarrow> nat \<Rightarrow> nat list \<times> jsnum list list \<Rightarrow> nat
     \<Rightarrow> error + (nat list \<times> jsnum list list)" where
  "accumulate vectors assignments k dimn st i =
     (if i < length assignments \<and> assignments ! i < k then
        (let cluster = assignments ! i; counts = fst st; csums = snd st
         in Inr (counts[cluster := counts ! cluster + 1],
                 csums[cluster :=
                   map (\<lambda>d. jadd (csums ! cluster ! d) (num_at (vectors ! i) d)) [0..<dimn]]))
      else if 0 < dimn then Inl TypeError
      else Inr st)"

fun accumulateAll ::
  "jsnum list list \<Rightarrow> nat list \<Rightarrow> nat \<Rightarrow> nat \<Rightarrow> nat list \<times> jsnum list list \<Rightarrow> nat list
     \<Rightarrow> error + (nat list \<times> jsnum list list)" where
  "accumulateAll vectors assignments k dimn st [] = Inr st"
| "accumulateAll vectors assignments k dimn st (i # is) =
     (case accumulate vectors assignments k dimn st i of
        Inl e \<Rightarrow> Inl e
      | Inr st' \<Rightarrow> accumulateAll vectors assignments k dimn st' is)"

text \<open>The second loop (lines 118-126), over the cluster indices still to do.\<close>

fun buildCentroids ::
  "jsnum list list \<Rightarrow> nat list \<Rightarrow> jsnum list list \<Rightarrow> (nat \<Rightarrow> real) \<Rightarrow> nat list
     \<Rightarrow> jsnum list list \<Rightarrow> nat \<Rightarrow> error + (jsnum list list \<times> nat)" where
  "buildCentroids vectors counts csums g [] centroids s = Inr (centroids, s)"
| "buildCentroids vectors counts csums g (i # is) centroids s =
     (if 0 < counts ! i then
        buildCentroids vectors counts csums g is
          (centroids @ [map (\<lambda>x. jdiv x (Fin (real (counts ! i)))) (csums ! i)]) s
      else case randomIdx g s (length vectors) of
             None \<Rightarrow> Inl TypeError
           | Some r \<Rightarrow>
               buildCentroids vectors counts csums g is (centroids @ [vectors ! r]) (Suc s))"

definition recalculateCentroids ::
  "jsnum list list \<Rightarrow> nat list \<Rightarrow> nat \<Rightarrow> nat \<Rightarrow> (nat \<Rightarrow> real) \<Rightarrow> nat
     \<Rightarrow> error + (jsnum list list \<times> nat)" where
  "recalculateCentroids vectors assignments k dimn g s =
     (case accumulateAll vectors assignments k dimn
             (replicate k 0, replicate k (replicate dimn (Fin 0))) [0..<length vectors] of
        Inl e \<Rightarrow> Inl e
      | Inr (counts, csums) \<Rightarrow> buildCentroids vectors counts csums g [0..<k] [] s)"

subsection \<open>The clustering driver\<close>

text \<open>
  \<^verbatim>\<open>KMeansOptions\<close> and \<^verbatim>\<open>ClusterResult\<close> (lines 3-13). \<open>k\<close> and
  \<open>maxIterations\<close> are counts, hence natural numbers; an absent option is \<open>None\<close>.
\<close>

record KMeansOptions =
  opt_k :: nat
  opt_maxIterations :: "nat option"
  opt_tolerance :: "jsnum option"

record ClusterResult =
  centroids_of :: "jsnum list list"
  assignments_of :: "nat list"
  iterations_of :: nat

text \<open>Lines 158-161: how many of the \<open>n\<close> vectors changed cluster.\<close>

definition changed :: "nat list \<Rightarrow> nat list \<Rightarrow> nat \<Rightarrow> nat" where
  "changed newAssignments assignments n =
     length (filter (\<lambda>i. newAssignments ! i \<noteq> assignments ! i) [0..<n])"

text \<open>Line 155.\<close>

definition assignAll :: "jsnum list list \<Rightarrow> jsnum list list \<Rightarrow> nat list" where
  "assignAll vectors centroids = map (\<lambda>v. assignToCentroid v centroids) vectors"

text \<open>Line 165.\<close>

definition converged :: "nat \<Rightarrow> nat \<Rightarrow> jsnum \<Rightarrow> bool" where
  "converged c n tolerance = jlt (jdiv (Fin (real c)) (Fin (real n))) tolerance"

text \<open>
  The main loop (lines 151-171) from pass \<open>iter\<close> on, with the current values of
  \<open>centroids\<close>, \<open>assignments\<close> and \<open>iterations\<close>; it returns what line 173 does,
  and the number of draws made.
\<close>

function mainLoop ::
  "jsnum list list \<Rightarrow> nat \<Rightarrow> nat \<Rightarrow> nat \<Rightarrow> jsnum \<Rightarrow> (nat \<Rightarrow> real)
     \<Rightarrow> nat \<Rightarrow> jsnum list list \<Rightarrow> nat list \<Rightarrow> nat \<Rightarrow> nat \<Rightarrow> error + (ClusterResult \<times> nat)" where
  "mainLoop vectors k dimn maxIter tol g iter centroids assignments iterations s =
     (if iter < maxIter then
        (let newAssignments = assignAll vectors centroids
         in if converged (changed newAssignments assignments (length vectors))
                 (length vectors) tol
            then Inr (\<lparr>centroids_of = centroids, assignments_of = newAssignments,
                       iterations_of = iter + 1\<rparr>, s)
            else (case recalculateCentroids vectors newAssignments k dimn g s of
                    Inl e \<Rightarrow> Inl e
                  | Inr (centroids', s') \<Rightarrow>
                      mainLoop vectors k dimn maxIter tol g (Suc iter) centroids' newAssignments
                        (iter + 1) s'))
      else Inr (\<lparr>centroids_of = centroids, assignments_of = assignments,
                 iterations_of = iterations\<rparr>, s))"
  by pat_completeness auto
termination
  by (relation "measure (\<lambda>(vectors, k, dimn, maxIter, tol, g, iter, r). maxIter - iter)") auto

text \<open>
  \<open>runPasses\<close> makes \<open>m\<close> passes of the loop body in full: the assignment of line 155
  and the centroid update of line 170, with no exit at line 166. It is what a run is
  compared with when the test of line 165 cannot succeed.
\<close>

fun runPasses ::
  "jsnum list list \<Rightarrow> nat \<Rightarrow> nat \<Rightarrow> (nat \<Rightarrow> real) \<Rightarrow> nat \<Rightarrow> jsnum list list \<Rightarrow> nat list \<Rightarrow> nat
     \<Rightarrow> error + (jsnum list list \<times> nat list \<times> nat)" where
  "runPasses vectors k dimn g 0 centroids assignments s = Inr (centroids, assignments, s)"
| "runPasses vectors k dimn g (Suc m) centroids assignments s =
     (let newAssignments = assignAll vectors centroids
      in case recalculateCentroids vectors newAssignments k dimn g s of
           Inl e \<Rightarrow> Inl e
         | Inr (centroids', s') \<Rightarrow> runPasses vectors k dimn g m centroids' newAssignments s')"

text \<open>
  \<^verbatim>\<open>kMeansClustering\<close> (lines 134-174). Line 140 reads \<^verbatim>\<open>vectors[0].length\<close>
  before the guard of line 142.
\<close>

definition kMeansClustering ::
  "jsnum list list \<Rightarrow> KMeansOptions \<Rightarrow> (nat \<Rightarrow> real) \<Rightarrow> nat \<Rightarrow> error + (ClusterResult \<times> nat)" where
  "kMeansClustering vectors options g s =
     (let k = opt_k options;
          maxIter = (case opt_maxIterations options of None \<Rightarrow> 100 | Some m \<Rightarrow> m);
          tol = (case opt_tolerance options of None \<Rightarrow> double_round (1 / 10000) | Some t \<Rightarrow> t);
          n = length vectors
      in if vectors = [] then Inl TypeError
         else if n < k then Inl NotEnoughVectors
         else (case initializeCentroids vectors k g s of
                 Inl e \<Rightarrow> Inl e
               | Inr (centroids, s') \<Rightarrow>
                   mainLoop vectors k (length (hd vectors)) maxIter tol g
                     0 centroids (replicate n 0) 0 s'))"

subsection \<open>Cluster representatives\<close>

record 'p representative =
  cluster_of :: nat
  posts_of :: "'p list"
  similarity_of :: jsnum

text \<open>
  The inner loop of \<^verbatim>\<open>getClusterRepresentatives\<close> (lines 191-196), over the indices
  still to do. \<^verbatim>\<open>cosineSimilarity\<close> reads the length of its first argument, which
  throws when \<open>vectors[i]\<close> is undefined.
\<close>

fun clusterPosts ::
  "jsnum list list \<Rightarrow> 'p list \<Rightarrow> jsnum list \<Rightarrow> nat list \<Rightarrow> nat \<Rightarrow> nat list
     \<Rightarrow> error + ('p \<times> jsnum) list" where
  "clusterPosts vectors posts centroid assignments c [] = Inr []"
| "clusterPosts vectors posts centroid assignments c (i # is) =
     (if i < length assignments \<and> assignments ! i = c then
        (if i < length vectors then
           (case clusterPosts vectors posts centroid assignments c is of
              Inl e \<Rightarrow> Inl e
            | Inr rest \<Rightarrow> Inr ((posts ! i, cosineSimilarity (vectors ! i) centroid) # rest))
         else Inl TypeError)
      else clusterPosts vectors posts centroid assignments c is)"

text \<open>
  \<^verbatim>\<open>clusterPosts.sort((a, b) => b.similarity - a.similarity)\<close> (line 199). With
  finite similarities the comparator is a consistent comparison: the sort of the
  language is then stable, and puts \<open>b\<close> before \<open>a\<close> only when the comparator says so
  with a positive number, which is what a stable insertion sort does. As soon as one
  similarity is \<open>NaN\<close> or infinite the comparator returns \<open>NaN\<close> on some pair (on the
  pair of an infinite similarity and itself already); the language then leaves the
  order to the engine, and \<open>engine\<close> stands for what the engine makes of the list.
\<close>

definition comparator :: "'p \<times> jsnum \<Rightarrow> 'p \<times> jsnum \<Rightarrow> jsnum" where
  "comparator a b = jsub (snd b) (snd a)"

fun sortInsert :: "'p \<times> jsnum \<Rightarrow> ('p \<times> jsnum) list \<Rightarrow> ('p \<times> jsnum) list" where
  "sortInsert x [] = [x]"
| "sortInsert x (y # ys) =
     (if jlt (Fin 0) (comparator x y) then y # sortInsert x ys else x # y # ys)"

definition sortBySimilarity ::
  "(('p \<times> jsnum) list \<Rightarrow> ('p \<times> jsnum) list) \<Rightarrow> ('p \<times> jsnum) list \<Rightarrow> ('p \<times> jsnum) list" where
  "sortBySimilarity engine xs =
     (if list_all (\<lambda>x. is_fin (snd x)) xs then foldr sortInsert xs [] else engine xs)"

text \<open>The outer loop (lines 188-207), over the cluster indices still to do.\<close>

fun representativesFrom ::
  "(('p \<times> jsnum) list \<Rightarrow> ('p \<times> jsnum) list) \<Rightarrow> jsnum list list \<Rightarrow> 'p list \<Rightarrow> jsnum list list
     \<Rightarrow> nat list \<Rightarrow> nat \<Rightarrow> nat list \<Rightarrow> error + 'p representative list list" where
  "representativesFrom engine vectors posts centroids assignments topN [] = Inr []"
| "representativesFrom engine vectors posts centroids assignments topN (c # cs) =
     (case clusterPosts vectors posts (centroids ! c) assignments c [0..<length posts] of
        Inl e \<Rightarrow> Inl e
      | Inr cps \<Rightarrow>
          (case representativesFrom engine vectors posts centroids assignments topN cs of
             Inl e \<Rightarrow> Inl e
           | Inr rest \<Rightarrow>
               Inr (map (\<lambda>cp. \<lparr>cluster_of = c, posts_of = [fst cp], similarity_of = snd cp\<rparr>)
                      (take topN (sortBySimilarity engine cps)) # rest)))"

text \<open>\<open>topN\<close> is a count; when the caller gives none (\<open>None\<close>) it is 5.\<close>

definition getClusterRepresentatives ::
  "(('p \<times> jsnum) list \<Rightarrow> ('p \<times> jsnum) list) \<Rightarrow> jsnum list list \<Rightarrow> 'p list \<Rightarrow> jsnum list list
     \<Rightarrow> nat list \<Rightarrow> nat option \<Rightarrow> error + 'p representative list list" where
  "getClusterRepresentatives engine vectors posts centroids assignments topN =
     representativesFrom engine vectors posts centroids assignments
       (case topN of None \<Rightarrow> 5 | Some t \<Rightarrow> t) [0..<length centroids]"

text \<open>
  What the result is compared with: the members of cluster \<open>c\<close>, which are the posts
  whose assignment is \<open>c\<close>, in the order of the input, each with the cosine similarity
  of its vector and the centroid of \<open>c\<close>.
\<close>

definition clusterMembers ::
  "jsnum list list \<Rightarrow> 'p list \<Rightarrow> jsnum list list \<Rightarrow> nat list \<Rightarrow> nat \<Rightarrow> ('p \<times> jsnum) list" where
  "clusterMembers vectors posts centroids assignments c =
     map (\<lambda>i. (posts ! i, cosineSimilarity (vectors ! i) (centroids ! c)))
       (filter (\<lambda>i. i < length assignments \<and> assignments ! i = c) [0..<length posts])"

subsection \<open>The arrays as objects of a store\<close>

text \<open>
  For the questions of aliasing, the number arrays (the input vectors, the rows of
  \<open>sums\<close>, the centroids) are objects of a store, and \<open>vectors\<close> and \<open>centroids\<close> are
  lists of references into it. An allocation extends the store by one array. The arrays
  that \<^verbatim>\<open>map\<close> and \<^verbatim>\<open>reduce\<close> build for \<open>distances\<close> and the assignments never
  hold a reference to a vector and are left out of the store.
\<close>

type_synonym addr = nat
type_synonym store = "jsnum list list"

definition alloc :: "store \<Rightarrow> jsnum list \<Rightarrow> addr \<times> store" where
  "alloc h xs = (length h, h @ [xs])"

text \<open>The spread \<^verbatim>\<open>[...x]\<close>: a new array with the elements of \<open>x\<close>.\<close>

definition spread :: "store \<Rightarrow> addr \<Rightarrow> addr \<times> store" where
  "spread h a = alloc h (h ! a)"

definition deref :: "store \<Rightarrow> addr list \<Rightarrow> jsnum list list" where
  "deref h as = map (\<lambda>a. h ! a) as"

text \<open>\<open>frame h0 h\<close>: every array of the store \<open>h0\<close> is in \<open>h\<close>, with the same elements.\<close>

definition frame :: "store \<Rightarrow> store \<Rightarrow> bool" where
  "frame h0 h = (take (length h0) h = h0)"

text \<open>\<open>fresh h0 h cs\<close>: the references \<open>cs\<close> are to arrays of \<open>h\<close> allocated after \<open>h0\<close>.\<close>

definition fresh :: "store \<Rightarrow> store \<Rightarrow> addr list \<Rightarrow> bool" where
  "fresh h0 h cs = list_all (\<lambda>c. length h0 \<le> c \<and> c < length h) cs"

text \<open>Seeding, lines 28-44 and 18-47.\<close>

function seedLoopS ::
  "store \<Rightarrow> addr list \<Rightarrow> nat \<Rightarrow> (nat \<Rightarrow> real) \<Rightarrow> nat \<Rightarrow> addr list \<Rightarrow> nat
     \<Rightarrow> addr list \<times> store \<times> nat" where
  "seedLoopS h vs k g i cs s =
     (if i < k then
        (let distances = seedDistances (deref h vs) (deref h cs);
             r = jmul (Fin (math_random g s)) (totalDist distances);
             p = (case pickIndex distances r 0 of
                    Some j \<Rightarrow> (let q = spread h (vs ! j) in (cs @ [fst q], snd q))
                  | None \<Rightarrow> (cs, h))
         in seedLoopS (snd p) vs k g (Suc i) (fst p) (Suc s))
      else (cs, h, s))"
  by pat_completeness auto
termination
  by (relation "measure (\<lambda>(h, vs, k, g, i, cs, s). k - i)") auto

definition initializeCentroidsS ::
  "store \<Rightarrow> addr list \<Rightarrow> nat \<Rightarrow> (nat \<Rightarrow> real) \<Rightarrow> nat \<Rightarrow> error + (addr list \<times> store \<times> nat)" where
  "initializeCentroidsS h vs k g s =
     (if vs = [] then Inl TypeError
      else case randomIdx g s (length vs) of
             None \<Rightarrow> Inl TypeError
           | Some firstIdx \<Rightarrow>
               (let q = spread h (vs ! firstIdx)
                in Inr (seedLoopS (snd q) vs k g 1 [fst q] (Suc s))))"

text \<open>
  Centroid update. Line 108 allocates the \<open>k\<close> rows of \<open>sums\<close>; line 114 writes into
  a row, one element at a time; line 120 allocates the array that \<^verbatim>\<open>map\<close> returns,
  line 124 the one of the spread.
\<close>

fun allocRows :: "store \<Rightarrow> nat \<Rightarrow> nat \<Rightarrow> addr list \<times> store" where
  "allocRows h 0 dimn = ([], h)"
| "allocRows h (Suc m) dimn =
     (let q = alloc h (replicate dimn (Fin 0)); p = allocRows (snd q) m dimn
      in (fst q # fst p, snd p))"

definition addInto :: "addr \<Rightarrow> addr \<Rightarrow> store \<Rightarrow> nat \<Rightarrow> store" where
  "addInto row v h d = h[row := (h ! row)[d := jadd (h ! row ! d) (num_at (h ! v) d)]]"

definition accumulateS ::
  "addr list \<Rightarrow> nat list \<Rightarrow> nat \<Rightarrow> nat \<Rightarrow> nat list \<times> addr list \<times> store \<Rightarrow> nat
     \<Rightarrow> error + (nat list \<times> addr list \<times> store)" where
  "accumulateS vs assignments k dimn st i =
     (if i < length assignments \<and> assignments ! i < k then
        (let cluster = assignments ! i; counts = fst st; csums = fst (snd st); h = snd (snd st)
         in Inr (counts[cluster := counts ! cluster + 1], csums,
                 foldl (addInto (csums ! cluster) (vs ! i)) h [0..<dimn]))
      else if 0 < dimn then Inl TypeError
      else Inr st)"

fun accumulateAllS ::
  "addr list \<Rightarrow> nat list \<Rightarrow> nat \<Rightarrow> nat \<Rightarrow> nat list \<times> addr list \<times> store \<Rightarrow> nat list
     \<Rightarrow> error + (nat list \<times> addr list \<times> store)" where
  "accumulateAllS vs assignments k dimn st [] = Inr st"
| "accumulateAllS vs assignments k dimn st (i # is) =
     (case accumulateS vs assignments k dimn st i of
        Inl e \<Rightarrow> Inl e
      | Inr st' \<Rightarrow> accumulateAllS vs assignments k dimn st' is)"

fun buildCentroidsS ::
  "addr list \<Rightarrow> nat list \<Rightarrow> addr list \<Rightarrow> (nat \<Rightarrow> real) \<Rightarrow> nat list
     \<Rightarrow> addr list \<Rightarrow> store \<Rightarrow> nat \<Rightarrow> error + (addr list \<times> store \<times> nat)" where
  "buildCentroidsS vs counts csums g [] cs h s = Inr (cs, h, s)"
| "buildCentroidsS vs counts csums g (i # is) cs h s =
     (if 0 < counts ! i then
        (let q = alloc h (map (\<lambda>x. jdiv x (Fin (real (counts ! i)))) (h ! (csums ! i)))
         in buildCentroidsS vs counts csums g is (cs @ [fst q]) (snd q) s)
      else case randomIdx g s (length vs) of
             None \<Rightarrow> Inl TypeError
           | Some r \<Rightarrow>
               (let q = spread h (vs ! r)
                in buildCentroidsS vs counts csums g is (cs @ [fst q]) (snd q) (Suc s)))"

definition recalculateCentroidsS ::
  "store \<Rightarrow> addr list \<Rightarrow> nat list \<Rightarrow> nat \<Rightarrow> nat \<Rightarrow> (nat \<Rightarrow> real) \<Rightarrow> nat
     \<Rightarrow> error + (addr list \<times> store \<times> nat)" where
  "recalculateCentroidsS h vs assignments k dimn g s =
     (let p = allocRows h k dimn
      in case accumulateAllS vs assignments k dimn (replicate k 0, fst p, snd p) [0..<length vs] of
           Inl e \<Rightarrow> Inl e
         | Inr (counts, csums, h') \<Rightarrow> buildCentroidsS vs counts csums g [0..<k] [] h' s)"

text \<open>The driver; its result holds the references to the centroids.\<close>

record ClusterResultS =
  centroid_refs :: "addr list"
  assignmentsS :: "nat list"
  iterationsS :: nat

function mainLoopS ::
  "store \<Rightarrow> addr list \<Rightarrow> nat \<Rightarrow> nat \<Rightarrow> nat \<Rightarrow> jsnum \<Rightarrow> (nat \<Rightarrow> real)
     \<Rightarrow> nat \<Rightarrow> addr list \<Rightarrow> nat list \<Rightarrow> nat \<Rightarrow> nat
     \<Rightarrow> error + (ClusterResultS \<times> store \<times> nat)" where
  "mainLoopS h vs k dimn maxIter tol g iter cs assignments iterations s =
     (if iter < maxIter then
        (let newAssignments = assignAll (deref h vs) (deref h cs)
         in if converged (changed newAssignments assignments (length vs)) (length vs) tol
            then Inr (\<lparr>centroid_refs = cs, assignmentsS = newAssignments,
                       iterationsS = iter + 1\<rparr>, h, s)
            else (case recalculateCentroidsS h vs newAssignments k dimn g s of
                    Inl e \<Rightarrow> Inl e
                  | Inr (cs', h', s') \<Rightarrow>
                      mainLoopS h' vs k dimn maxIter tol g (Suc iter) cs' newAssignments
                        (iter + 1) s'))
      else Inr (\<lparr>centroid_refs = cs, assignmentsS = assignments,
                 iterationsS = iterations\<rparr>, h, s))"
  by pat_completeness auto
termination
  by (relation "measure (\<lambda>(h, vs, k, dimn, maxIter, tol, g, iter, r). maxIter - iter)") auto

definition kMeansClusteringS ::
  "store \<Rightarrow> addr list \<Rightarrow> KMeansOptions \<Rightarrow> (nat \<Rightarrow> real) \<Rightarrow> nat
     \<Rightarrow> error + (ClusterResultS \<times> store \<times> nat)" where
  "kMeansClusteringS h vs options g s =
     (let k = opt_k options;
          maxIter = (case opt_maxIterations options of None \<Rightarrow> 100 | Some m \<Rightarrow> m);
          tol = (case opt_tolerance options of None \<Rightarrow> double_round (1 / 10000) | Some t \<Rightarrow> t);
          n = length vs
      in if vs = [] then Inl TypeError
         else if n < k then Inl NotEnoughVectors
         else (case initializeCentroidsS h vs k g s of
                 Inl e \<Rightarrow> Inl e
               | Inr (cs, h', s') \<Rightarrow>
                   mainLoopS h' vs k (length (h ! hd vs)) maxIter tol g
                     0 cs (replicate n 0) 0 s'))"

text \<open>
  The value of a result of the store model: each reference replaced by the array it
  refers to.
\<close>

fun absC :: "error + (addr list \<times> store \<times> nat) \<Rightarrow> error + (jsnum list list \<times> nat)" where
  "absC (Inl e) = Inl e"
| "absC (Inr (cs, h, s)) = Inr (deref h cs, s)"

fun absR :: "error + (ClusterResultS \<times> store \<times> nat) \<Rightarrow> error + (ClusterResult \<times> nat)" where
  "absR (Inl e) = Inl e"
| "absR (Inr (res, h, s)) =
     Inr (\<lparr>centroids_of = deref h (centroid_refs res), assignments_of = assignmentsS res,
           iterations_of = iterationsS res\<rparr>, s)"

text \<open>
  \<open>rows_ok h vs rows dimn\<close>: the rows of \<open>sums\<close> are distinct arrays of \<open>dimn\<close>
  elements, none of them an input vector.
\<close>

definition rows_ok :: "store \<Rightarrow> addr list \<Rightarrow> addr list \<Rightarrow> nat \<Rightarrow> bool" where
  "rows_ok h vs rows dimn =
     (distinct rows \<and> list_all (\<lambda>a. a < length h \<and> a \<notin> set vs \<and> length (h ! a) = dimn) rows)"

declare seedLoop.simps [simp del]
declare seedLoopS.simps [simp del]
declare mainLoopS.simps [simp del]
declare mainLoop.simps [simp del]

section \<open>Auxiliary facts\<close>

subsection \<open>Rounding to the nearest double\<close>

lemma rne_of_int: "rne (of_int k) = k"
  by (simp add: rne_def)

lemma rne_lower: "of_int n \<le> z \<Longrightarrow> n \<le> rne z"
proof -
  assume "of_int n \<le> z"
  then have "n \<le> \<lfloor>z\<rfloor>" by (simp add: le_floor_iff)
  then show ?thesis by (simp add: rne_def Let_def)
qed

lemma rne_upper: "z \<le> of_int n \<Longrightarrow> rne z \<le> n"
proof -
  assume z: "z \<le> of_int n"
  show ?thesis
  proof (cases "z = of_int \<lfloor>z\<rfloor>")
    case True
    then have "rne z = \<lfloor>z\<rfloor>" by (simp add: rne_def)
    moreover have "\<lfloor>z\<rfloor> \<le> n" using z by (simp add: floor_le_iff)
    ultimately show ?thesis by simp
  next
    case False
    then have "of_int \<lfloor>z\<rfloor> < z" using of_int_floor_le [of z] by linarith
    then have "real_of_int \<lfloor>z\<rfloor> < real_of_int n" using z by linarith
    then have "\<lfloor>z\<rfloor> < n" by (simp only: of_int_less_iff)
    moreover have "rne z \<le> \<lfloor>z\<rfloor> + 1" by (simp add: rne_def Let_def)
    ultimately show ?thesis by simp
  qed
qed

lemma grid_unit_pos: "(0::real) < 2 powr (- 1074)"
  by simp

lemma ulp_pos: "0 < ulp x"
  by (simp add: ulp_def)

lemma ulp_le:
  assumes "2 powr (- 1074) \<le> \<bar>x\<bar>"
  shows "ulp x \<le> \<bar>x\<bar>"
proof -
  have x: "0 < \<bar>x\<bar>" using assms grid_unit_pos by linarith
  define L where "L = \<lfloor>log 2 \<bar>x\<bar>\<rfloor>"
  have "2 powr of_int L \<le> \<bar>x\<bar>"
    using floor_log_eq_powr_iff [of "\<bar>x\<bar>" 2 L] x by (simp add: L_def)
  moreover have "(2::real) powr of_int (L - 52) \<le> 2 powr of_int L" by simp
  ultimately have "2 powr of_int (L - 52) \<le> \<bar>x\<bar>" by linarith
  then show ?thesis using assms by (simp add: ulp_def L_def [symmetric] max_def)
qed

lemma floor_log_bounds:
  assumes "x \<noteq> 0"
  shows "2 powr of_int \<lfloor>log 2 \<bar>x\<bar>\<rfloor> \<le> \<bar>x\<bar>" "\<bar>x\<bar> < 2 powr (of_int \<lfloor>log 2 \<bar>x\<bar>\<rfloor> + 1)"
  using floor_log_eq_powr_iff [of "\<bar>x\<bar>" 2 "\<lfloor>log 2 \<bar>x\<bar>\<rfloor>"] assms by simp_all

lemma double_round_zero [simp]: "double_round 0 = Fin 0"
  by (simp add: double_round_def)

lemma two_powr_int: "0 \<le> d \<Longrightarrow> (2::real) powr of_int d = of_int (2 ^ nat d)"
  by (simp add: powr_realpow [symmetric])

lemma two_powr_1024: "(2::real) powr 1024 = 2 ^ 1024"
proof -
  have "(2::real) powr of_nat 1024 = 2 ^ 1024" by (rule powr_realpow) simp
  then show ?thesis by (simp only: of_nat_numeral)
qed

lemma double_round_multiple:
  assumes "x = of_int k * ulp x" "\<bar>x\<bar> < 2 ^ 1024"
  shows "double_round x = Fin x"
proof (cases "x = 0")
  case True
  then show ?thesis by (simp add: double_round_def)
next
  case False
  have "x / ulp x = of_int k"
    using assms(1) ulp_pos [of x] by (metis nonzero_mult_div_cancel_right less_irrefl)
  then have "of_int (rne (x / ulp x)) * ulp x = x"
    using assms(1) by (simp only: rne_of_int)
  then show ?thesis using False assms(2) by (simp only: double_round_def Let_def) simp
qed

lemma double_round_exact:
  assumes "x = of_int m * 2 powr of_int e" "\<bar>m\<bar> < 2 ^ 53" "- 1074 \<le> e" "\<bar>x\<bar> < 2 ^ 1024"
  shows "double_round x = Fin x"
proof (cases "x = 0")
  case True
  then show ?thesis by (simp add: double_round_def)
next
  case False
  define L where "L = \<lfloor>log 2 \<bar>x\<bar>\<rfloor>"
  define u where "u = max (L - 52) (- 1074)"
  have "\<bar>m\<bar> \<le> 2 ^ 53 - 1" using assms(2) by simp
  then have "real_of_int \<bar>m\<bar> \<le> real_of_int (2 ^ 53 - 1)" by (simp only: of_int_le_iff)
  then have m: "\<bar>real_of_int m\<bar> < 2 ^ 53" by simp
  have e: "0 < (2::real) powr of_int e" by simp
  have "\<bar>x\<bar> = \<bar>real_of_int m\<bar> * 2 powr of_int e"
    by (simp only: assms(1) abs_mult) simp
  also have "\<dots> < 2 ^ 53 * 2 powr of_int e"
    using m e by (rule mult_strict_right_mono)
  also have "\<dots> = 2 powr (53 + of_int e)"
    by (simp add: powr_add powr_realpow [symmetric])
  finally have "\<bar>x\<bar> < 2 powr (53 + of_int e)" .
  moreover have "2 powr of_int L \<le> \<bar>x\<bar>"
    using floor_log_bounds(1) [OF False] by (simp only: L_def)
  ultimately have "2 powr of_int L < (2::real) powr (53 + of_int e)" by (rule le_less_trans [rotated])
  then have "of_int L < (53::real) + of_int e" by (rule powr_less_cancel) simp
  then have "L < 53 + e" by linarith
  then have ue: "0 \<le> e - u" using assms(3) by (simp add: u_def)
  have ulp: "ulp x = 2 powr of_int u" by (simp only: ulp_def u_def L_def)
  have "(2::real) powr of_int e = 2 powr (of_int (e - u) + of_int u)" by simp
  also have "\<dots> = 2 powr of_int (e - u) * 2 powr of_int u" by (rule powr_add)
  also have "\<dots> = of_int (2 ^ nat (e - u)) * ulp x"
    by (simp only: two_powr_int [OF ue] ulp)
  finally have "x = of_int m * (of_int (2 ^ nat (e - u)) * ulp x)"
    using assms(1) by simp
  then have "x = of_int (m * 2 ^ nat (e - u)) * ulp x" by simp
  then show ?thesis using assms(4) by (rule double_round_multiple)
qed

lemma double_round_of_int:
  assumes "\<bar>n\<bar> < 2 ^ 53"
  shows "double_round (of_int n) = Fin (of_int n)"
proof -
  have "\<bar>n\<bar> < 2 ^ 1024"
    using assms by (rule less_trans) simp
  then have "real_of_int \<bar>n\<bar> < real_of_int (2 ^ 1024)" by (simp only: of_int_less_iff)
  then have "\<bar>real_of_int n\<bar> < 2 ^ 1024" by simp
  moreover have "real_of_int n = of_int n * 2 powr of_int 0" by simp
  ultimately show ?thesis using assms by (intro double_round_exact [of _ n 0]) simp_all
qed

lemma double_round_overflow:
  assumes "2 ^ 1024 \<le> \<bar>x\<bar>"
  shows "double_round x = (if 0 < x then PInf else NInf)"
proof -
  have x: "x \<noteq> 0" using assms by auto
  define L where "L = \<lfloor>log 2 \<bar>x\<bar>\<rfloor>"
  have "(2::real) powr 1024 \<le> \<bar>x\<bar>" using assms by (simp only: two_powr_1024)
  moreover have "\<bar>x\<bar> < 2 powr (of_int L + 1)"
    using floor_log_bounds(2) [OF x] by (simp only: L_def)
  ultimately have "(2::real) powr 1024 < 2 powr (of_int L + 1)" by (rule le_less_trans)
  then have "(1024::real) < of_int L + 1" by (rule powr_less_cancel) simp
  then have L: "1024 \<le> L" by linarith
  then have "max (L - 52) (- 1074) = L - 52" by simp
  then have ulp: "ulp x = 2 powr of_int (L - 52)" by (simp only: ulp_def L_def)
  have lo: "2 powr of_int L \<le> \<bar>x\<bar>" using floor_log_bounds(1) [OF x] by (simp only: L_def)
  have split: "(2::real) powr of_int L = 2 ^ 52 * ulp x"
  proof -
    have "(2::real) powr of_int L = 2 powr (of_int 52 + of_int (L - 52))" by simp
    also have "\<dots> = 2 powr of_int 52 * 2 powr of_int (L - 52)" by (rule powr_add)
    finally show ?thesis using two_powr_int [of 52] by (simp add: ulp)
  qed
  have big: "2 ^ 52 \<le> \<bar>x\<bar> / ulp x"
    using lo ulp_pos [of x] by (simp add: split pos_le_divide_eq)
  have "(2::int) ^ 52 \<le> \<bar>rne (x / ulp x)\<bar>"
  proof (cases "0 < x")
    case True
    then have "of_int ((2::int) ^ 52) \<le> x / ulp x" using big by simp
    from rne_lower [OF this] show ?thesis by simp
  next
    case False
    then have "\<bar>x\<bar> = - x" by simp
    then have "x / ulp x \<le> of_int (- ((2::int) ^ 52))" using big by simp
    from rne_upper [OF this] show ?thesis by simp
  qed
  then have "real_of_int ((2::int) ^ 52) \<le> real_of_int \<bar>rne (x / ulp x)\<bar>"
    by (simp only: of_int_le_iff)
  then have "(2::real) ^ 52 \<le> \<bar>of_int (rne (x / ulp x))\<bar>" by simp
  then have "2 ^ 52 * ulp x \<le> \<bar>of_int (rne (x / ulp x))\<bar> * ulp x"
    using ulp_pos [of x] by (simp add: mult_right_mono)
  moreover have "(2::real) powr 1024 \<le> 2 powr of_int L"
    using L by (intro powr_mono) simp_all
  ultimately have "(2::real) powr 1024 \<le> \<bar>of_int (rne (x / ulp x))\<bar> * ulp x"
    using split by linarith
  then have "2 ^ 1024 \<le> \<bar>of_int (rne (x / ulp x)) * ulp x\<bar>"
    using ulp_pos [of x] by (simp only: two_powr_1024 abs_mult abs_of_pos)
  then show ?thesis using x by (simp only: double_round_def Let_def) simp
qed

lemma ulp_grid: "\<exists>k::int. 0 < k \<and> ulp x = of_int k * 2 powr (- 1074)"
proof -
  define u where "u = max (\<lfloor>log 2 \<bar>x\<bar>\<rfloor> - 52) (- 1074)"
  have u: "0 \<le> u + 1074" by (simp add: u_def)
  have "ulp x = 2 powr (of_int (u + 1074) + (- 1074))" by (simp add: ulp_def u_def)
  also have "\<dots> = 2 powr of_int (u + 1074) * 2 powr (- 1074)" by (rule powr_add)
  also have "\<dots> = of_int (2 ^ nat (u + 1074)) * 2 powr (- 1074)"
    by (simp only: two_powr_int [OF u])
  finally have "ulp x = of_int (2 ^ nat (u + 1074)) * 2 powr (- 1074)" .
  moreover have "(0::int) < 2 ^ nat (u + 1074)" by simp
  ultimately show ?thesis by blast
qed

lemma double_round_grid:
  assumes "double_round x = Fin y"
  shows "\<exists>k::int. y = of_int k * 2 powr (- 1074)"
proof (cases "x = 0")
  case True
  then have "y = of_int 0 * 2 powr (- 1074)" using assms by (simp add: double_round_def)
  then show ?thesis by blast
next
  case False
  then have y: "y = of_int (rne (x / ulp x)) * ulp x"
    using assms by (simp only: double_round_def Let_def) (simp split: if_splits)
  from ulp_grid [of x] obtain k :: int where "ulp x = of_int k * 2 powr (- 1074)" by blast
  then have "y = of_int (rne (x / ulp x) * k) * 2 powr (- 1074)" using y by simp
  then show ?thesis by blast
qed

lemma double_round_pos:
  assumes "2 powr (- 1074) \<le> x"
  shows "double_round x = PInf \<or> (\<exists>y>0. double_round x = Fin y)"
proof -
  have x: "0 < x" using assms grid_unit_pos by linarith
  then have "ulp x \<le> x" using ulp_le [of x] assms by simp
  then have "of_int 1 \<le> x / ulp x" using ulp_pos [of x] by (simp add: pos_le_divide_eq)
  from rne_lower [OF this] have "1 \<le> rne (x / ulp x)" .
  then have "(1::real) \<le> of_int (rne (x / ulp x))" by simp
  then have "1 * ulp x \<le> of_int (rne (x / ulp x)) * ulp x"
    using ulp_pos [of x] by (intro mult_right_mono) simp_all
  then have "0 < of_int (rne (x / ulp x)) * ulp x" using ulp_pos [of x] by simp
  then show ?thesis using x by (simp only: double_round_def Let_def) (simp split: if_splits)
qed

lemma double_round_neg:
  assumes "x \<le> - (2 powr (- 1074))"
  shows "double_round x = NInf \<or> (\<exists>y<0. double_round x = Fin y)"
proof -
  have x: "x < 0" using assms grid_unit_pos by linarith
  then have "ulp x \<le> - x" using ulp_le [of x] assms by simp
  then have "x / ulp x \<le> of_int (- 1)" using ulp_pos [of x] by (simp add: pos_divide_le_eq)
  from rne_upper [OF this] have "rne (x / ulp x) \<le> - 1" .
  then have "of_int (rne (x / ulp x)) \<le> (- 1::real)" by linarith
  then have "of_int (rne (x / ulp x)) * ulp x \<le> (- 1) * ulp x"
    using ulp_pos [of x] by (intro mult_right_mono) simp_all
  then have "of_int (rne (x / ulp x)) * ulp x < 0" using ulp_pos [of x] by simp
  then show ?thesis using x by (simp only: double_round_def Let_def) (simp split: if_splits)
qed

lemma double_round_nonneg:
  assumes "0 \<le> x"
  shows "double_round x = PInf \<or> (\<exists>y\<ge>0. double_round x = Fin y)"
proof (cases "x = 0")
  case True
  then show ?thesis by (simp add: double_round_def)
next
  case False
  then have x: "0 < x" using assms by simp
  then have "of_int 0 \<le> x / ulp x" using ulp_pos [of x] by simp
  from rne_lower [OF this] have "0 \<le> rne (x / ulp x)" .
  then have "0 \<le> of_int (rne (x / ulp x)) * ulp x" using ulp_pos [of x] by simp
  then show ?thesis using x by (simp only: double_round_def Let_def) (simp split: if_splits)
qed

lemma double_round_nonpos:
  assumes "x \<le> 0"
  shows "double_round x = NInf \<or> (\<exists>y\<le>0. double_round x = Fin y)"
proof (cases "x = 0")
  case True
  then show ?thesis by (simp add: double_round_def)
next
  case False
  then have x: "x < 0" using assms by simp
  then have "x / ulp x \<le> of_int 0" using ulp_pos [of x] by (simp add: divide_le_0_iff)
  from rne_upper [OF this] have "rne (x / ulp x) \<le> 0" .
  then have "of_int (rne (x / ulp x)) * ulp x \<le> 0"
    using ulp_pos [of x] by (simp add: mult_le_0_iff)
  then show ?thesis using x by (simp only: double_round_def Let_def) (simp split: if_splits)
qed

lemma grid_difference:
  fixes a b :: real
  assumes "a = of_int ka * 2 powr (- 1074)" "b = of_int kb * 2 powr (- 1074)" "a < b"
  shows "2 powr (- 1074) \<le> b - a"
proof -
  note g = grid_unit_pos
  have "real_of_int ka < real_of_int kb"
    using assms(3) g unfolding assms(1,2) by simp
  then have "1 \<le> kb - ka" by linarith
  then have "(1::real) \<le> of_int (kb - ka)" by linarith
  then have "1 * (2::real) powr (- 1074) \<le> of_int (kb - ka) * 2 powr (- 1074)"
    using g by (intro mult_right_mono) simp_all
  then show ?thesis by (simp add: assms(1,2) algebra_simps)
qed

lemma double_round_numeral [simp]:
  "(numeral k :: int) < 2 ^ 53 \<Longrightarrow> double_round (numeral k) = Fin (numeral k)"
  using double_round_of_int [of "numeral k"] by simp

lemma double_round_neg_numeral [simp]:
  "(numeral k :: int) < 2 ^ 53 \<Longrightarrow> double_round (- numeral k) = Fin (- numeral k)"
  using double_round_of_int [of "- numeral k"] by simp

lemma double_round_one [simp]: "double_round 1 = Fin 1"
  using double_round_of_int [of 1] by simp

lemma double_round_minus_one [simp]: "double_round (- 1) = Fin (- 1)"
  using double_round_of_int [of "- 1"] by simp

lemma double_round_half [simp]: "double_round (1 / 2) = Fin (1 / 2)"
proof -
  have "(1 / 2 :: real) = of_int 1 * 2 powr of_int (- 1)" by (simp add: powr_minus_divide)
  then show ?thesis by (rule double_round_exact) simp_all
qed

lemma double_round_minus_half [simp]: "double_round (- (1 / 2)) = Fin (- (1 / 2))"
proof -
  have "(- (1 / 2) :: real) = of_int (- 1) * 2 powr of_int (- 1)" by (simp add: powr_minus_divide)
  then show ?thesis by (rule double_round_exact) simp_all
qed

lemma sqrt_sixteen [simp]: "sqrt 16 = 4"
  by (rule real_sqrt_unique) simp_all

lemma rne_le_half: "of_int (rne z) \<le> z + 1 / 2"
proof -
  have f: "of_int \<lfloor>z\<rfloor> \<le> z" by linarith
  have "rne z = \<lfloor>z\<rfloor> \<or> rne z = \<lfloor>z\<rfloor> + 1 \<and> 1 / 2 \<le> z - of_int \<lfloor>z\<rfloor>"
    unfolding rne_def Let_def by (auto simp only: not_less split: if_splits)
  then show ?thesis
  proof
    assume "rne z = \<lfloor>z\<rfloor>"
    then have "real_of_int (rne z) = of_int \<lfloor>z\<rfloor>" by simp
    then show ?thesis using f by linarith
  next
    assume a: "rne z = \<lfloor>z\<rfloor> + 1 \<and> 1 / 2 \<le> z - of_int \<lfloor>z\<rfloor>"
    then have "real_of_int (rne z) = of_int \<lfloor>z\<rfloor> + 1" by simp
    then show ?thesis using a by linarith
  qed
qed

lemma round_le:
  "of_int (rne (x / ulp x)) * ulp x \<le> x + ulp x / 2"
proof -
  have "of_int (rne (x / ulp x)) \<le> x / ulp x + 1 / 2" by (rule rne_le_half)
  then have "of_int (rne (x / ulp x)) * ulp x \<le> (x / ulp x + 1 / 2) * ulp x"
    using ulp_pos [of x] by (intro mult_right_mono) simp_all
  also have "\<dots> = x + ulp x / 2" using ulp_pos [of x] by (simp add: field_simps)
  finally show ?thesis .
qed

lemma ulp_normal:
  assumes "x \<noteq> 0" "- 1022 \<le> \<lfloor>log 2 \<bar>x\<bar>\<rfloor>"
  shows "ulp x \<le> \<bar>x\<bar> * 2 powr (- 52)"
proof -
  define L where "L = \<lfloor>log 2 \<bar>x\<bar>\<rfloor>"
  have "- 1022 \<le> L" using assms(2) by (simp only: L_def)
  then have "max (L - 52) (- 1074) = L - 52" by simp
  then have "ulp x = 2 powr of_int (L - 52)" by (simp only: ulp_def L_def)
  also have "\<dots> = 2 powr (of_int L + (- 52))" by simp
  also have "\<dots> = 2 powr of_int L * 2 powr (- 52)" by (rule powr_add)
  also have "\<dots> \<le> \<bar>x\<bar> * 2 powr (- 52)"
    using floor_log_bounds(1) [OF assms(1)] by (intro mult_right_mono) (simp_all add: L_def)
  finally show ?thesis .
qed

lemma ulp_subnormal:
  assumes "x \<noteq> 0" "\<lfloor>log 2 \<bar>x\<bar>\<rfloor> < - 1022"
  shows "ulp x = 2 powr (- 1074)" "\<bar>x\<bar> < 2 powr (- 1022)"
proof -
  define L where "L = \<lfloor>log 2 \<bar>x\<bar>\<rfloor>"
  have L: "L < - 1022" using assms(2) by (simp only: L_def)
  then have "max (L - 52) (- 1074) = - 1074" by simp
  then have "ulp x = 2 powr of_int (- 1074)" by (simp only: ulp_def L_def)
  then show "ulp x = 2 powr (- 1074)" by simp
  have "\<bar>x\<bar> < 2 powr (of_int L + 1)" using floor_log_bounds(2) [OF assms(1)] by (simp only: L_def)
  moreover have "of_int L + 1 \<le> (- 1022::real)" using L by linarith
  then have "(2::real) powr (of_int L + 1) \<le> 2 powr (- 1022)"
    by (intro powr_mono) simp_all
  ultimately show "\<bar>x\<bar> < 2 powr (- 1022)" by linarith
qed

lemma two_powr_53: "(2::real) powr (- 52) = 2 * 2 powr (- 53)"
proof -
  have "(2::real) powr (1 + (- 53)) = 2 powr 1 * 2 powr (- 53)" by (rule powr_add)
  then show ?thesis by simp
qed

lemma index_product:
  fixes u n :: real
  assumes "0 \<le> u" "u \<le> 1 - 2 powr (- 53)" "1 \<le> n" "n < 2 ^ 1024"
  shows "\<exists>y. double_round (u * n) = Fin y \<and> 0 \<le> y \<and> y < n"
proof (cases "u * n = 0")
  case True
  then show ?thesis using assms(3) by (intro exI [of _ 0]) simp
next
  case False
  define x where "x = u * n"
  define t :: real where "t = 2 powr (- 53)"
  define y where "y = of_int (rne (x / ulp x)) * ulp x"
  have t: "0 < t" by (simp add: t_def)
  have x: "0 < x" using False assms(1,3) by (simp add: x_def zero_less_mult_iff less_le)
  have xn: "x \<le> n * (1 - t)"
    using assms(2,3) by (simp add: x_def t_def mult.commute mult_left_mono)
  have "of_int 0 \<le> x / ulp x" using x ulp_pos [of x] by simp
  from rne_lower [OF this] have "0 \<le> y" using ulp_pos [of x] by (simp add: y_def)
  have up: "y \<le> x + ulp x / 2" unfolding y_def by (rule round_le)
  have "y < n"
  proof (cases "- 1022 \<le> \<lfloor>log 2 \<bar>x\<bar>\<rfloor>")
    case True
    from ulp_normal [OF _ True] x have "ulp x \<le> x * (2 * t)"
      by (simp add: two_powr_53 t_def)
    then have "y \<le> x * (1 + t)" using up by (simp add: algebra_simps)
    also have "\<dots> \<le> (n * (1 - t)) * (1 + t)" using xn t by (intro mult_right_mono) simp_all
    also have "\<dots> = n - n * (t * t)" by (simp add: algebra_simps)
    also have "\<dots> < n" using t assms(3) by simp
    finally show ?thesis .
  next
    case False
    then have "\<lfloor>log 2 \<bar>x\<bar>\<rfloor> < - 1022" by simp
    from ulp_subnormal [OF _ this] x have u: "ulp x = 2 powr (- 1074)" "x < 2 powr (- 1022)" by simp_all
    have "(2::real) powr (- 1022) \<le> 2 powr (- 2)" by (intro powr_mono) simp_all
    moreover have "(2::real) powr (- 1074) \<le> 2 powr (- 2)" by (intro powr_mono) simp_all
    moreover have "(2::real) powr (- 2) = 1 / 4" by (simp add: powr_minus_divide)
    ultimately have "y < 1" using up u by simp
    then show ?thesis using assms(3) by simp
  qed
  then have "\<not> 2 ^ 1024 \<le> \<bar>y\<bar>" using \<open>0 \<le> y\<close> assms(4) by simp
  then have "double_round x = Fin y"
    using x by (simp add: double_round_def Let_def y_def)
  then show ?thesis using \<open>0 \<le> y\<close> \<open>y < n\<close> unfolding x_def by blast
qed

lemma double_floor_bounds:
  assumes "0 \<le> x" "x < 1"
  shows "0 \<le> double_floor x" "double_floor x \<le> 1 - 2 powr (- 53)"
proof -
  have f: "of_int \<lfloor>x / ulp x\<rfloor> * ulp x \<le> x"
  proof -
    have "of_int \<lfloor>x / ulp x\<rfloor> \<le> x / ulp x" by linarith
    then have "of_int \<lfloor>x / ulp x\<rfloor> * ulp x \<le> (x / ulp x) * ulp x"
      using ulp_pos [of x] by (intro mult_right_mono) simp_all
    then show ?thesis using ulp_pos [of x] by simp
  qed
  show "0 \<le> double_floor x"
    using assms(1) ulp_pos [of x] by (simp add: double_floor_def)
  show "double_floor x \<le> 1 - 2 powr (- 53)"
  proof (cases "x < 1 / 2")
    case True
    have "(2::real) powr (- 53) \<le> 2 powr (- 1)" by (intro powr_mono) simp_all
    moreover have "(2::real) powr (- 1) = 1 / 2" by (simp add: powr_minus_divide)
    ultimately have "1 / 2 \<le> 1 - (2::real) powr (- 53)" by simp
    moreover have "double_floor x \<le> x" using f by (simp add: double_floor_def)
    ultimately show ?thesis using True by linarith
  next
    case False
    then have x: "1 / 2 \<le> x" by simp
    have "\<lfloor>log 2 \<bar>x\<bar>\<rfloor> = - 1"
      using floor_log_eq_powr_iff [of "\<bar>x\<bar>" 2 "- 1"] x assms(2) by (simp add: powr_minus_divide)
    then have u: "ulp x = 2 powr (- 53)" by (simp add: ulp_def)
    have p: "(2::real) powr (- 53) * 2 ^ 53 = 1"
    proof -
      have "(2::real) powr (- of_nat 53) = 1 / 2 powr of_nat 53" by (rule powr_minus_divide)
      also have "(2::real) powr of_nat 53 = 2 ^ 53" by (rule powr_realpow) simp
      finally show ?thesis by (simp only: of_nat_numeral) simp
    qed
    have "x / ulp x = x * 2 ^ 53" using p by (simp add: u field_simps)
    moreover have "x * 2 ^ 53 < of_int (2 ^ 53)" using assms(2) by simp
    ultimately have "\<lfloor>x / ulp x\<rfloor> < 2 ^ 53" by (simp only: floor_less_iff)
    then have "\<lfloor>x / ulp x\<rfloor> \<le> 2 ^ 53 - 1" by simp
    then have "real_of_int \<lfloor>x / ulp x\<rfloor> \<le> real_of_int (2 ^ 53 - 1)" by (simp only: of_int_le_iff)
    then have "real_of_int \<lfloor>x / ulp x\<rfloor> \<le> 2 ^ 53 - 1" by simp
    then have "of_int \<lfloor>x / ulp x\<rfloor> * ulp x \<le> (2 ^ 53 - 1) * ulp x"
      using ulp_pos [of x] by (intro mult_right_mono) simp_all
    also have "\<dots> = 1 - 2 powr (- 53)" using p by (simp add: u algebra_simps)
    finally show ?thesis using x by (simp add: double_floor_def)
  qed
qed

lemma double_floor_multiple: "x = of_int k * ulp x \<Longrightarrow> double_floor x = x"
proof -
  assume a: "x = of_int k * ulp x"
  have "x / ulp x = of_int k"
    using a ulp_pos [of x] by (metis nonzero_mult_div_cancel_right less_irrefl)
  then show ?thesis using a by (simp add: double_floor_def)
qed

lemma exact_multiple:
  assumes "x = of_int m * 2 powr of_int e" "\<bar>m\<bar> < 2 ^ 53" "- 1074 \<le> e" "x \<noteq> 0"
  shows "\<exists>k::int. x = of_int k * ulp x"
proof -
  define L where "L = \<lfloor>log 2 \<bar>x\<bar>\<rfloor>"
  define u where "u = max (L - 52) (- 1074)"
  have "\<bar>m\<bar> \<le> 2 ^ 53 - 1" using assms(2) by simp
  then have "real_of_int \<bar>m\<bar> \<le> real_of_int (2 ^ 53 - 1)" by (simp only: of_int_le_iff)
  then have m: "\<bar>real_of_int m\<bar> < 2 ^ 53" by simp
  have e: "0 < (2::real) powr of_int e" by simp
  have "\<bar>x\<bar> = \<bar>real_of_int m\<bar> * 2 powr of_int e"
    by (simp only: assms(1) abs_mult) simp
  also have "\<dots> < 2 ^ 53 * 2 powr of_int e"
    using m e by (rule mult_strict_right_mono)
  also have "\<dots> = 2 powr (53 + of_int e)"
    by (simp add: powr_add powr_realpow [symmetric])
  finally have "\<bar>x\<bar> < 2 powr (53 + of_int e)" .
  moreover have "2 powr of_int L \<le> \<bar>x\<bar>"
    using floor_log_bounds(1) [OF assms(4)] by (simp only: L_def)
  ultimately have "2 powr of_int L < (2::real) powr (53 + of_int e)" by (rule le_less_trans [rotated])
  then have "of_int L < (53::real) + of_int e" by (rule powr_less_cancel) simp
  then have "L < 53 + e" by linarith
  then have ue: "0 \<le> e - u" using assms(3) by (simp add: u_def)
  have ulp: "ulp x = 2 powr of_int u" by (simp only: ulp_def u_def L_def)
  have "(2::real) powr of_int e = 2 powr (of_int (e - u) + of_int u)" by simp
  also have "\<dots> = 2 powr of_int (e - u) * 2 powr of_int u" by (rule powr_add)
  also have "\<dots> = of_int (2 ^ nat (e - u)) * ulp x"
    by (simp only: two_powr_int [OF ue] ulp)
  finally have "x = of_int m * (of_int (2 ^ nat (e - u)) * ulp x)"
    using assms(1) by simp
  then have "x = of_int (m * 2 ^ nat (e - u)) * ulp x" by simp
  then show ?thesis by blast
qed

lemma double_floor_zero [simp]: "double_floor 0 = 0"
  by (simp add: double_floor_def)

lemma double_floor_half [simp]: "double_floor (1 / 2) = 1 / 2"
proof -
  have "(1 / 2 :: real) = of_int 1 * 2 powr of_int (- 1)" by (simp add: powr_minus_divide)
  from exact_multiple [OF this] obtain k :: int where "(1 / 2 :: real) = of_int k * ulp (1 / 2)"
    by auto
  then show ?thesis by (rule double_floor_multiple)
qed

text \<open>The number drawn is a double in \<open>[0, 1)\<close>.\<close>

lemma double_floor_double:
  assumes "0 \<le> x" "x < 1"
  shows "double_round (double_floor x) = Fin (double_floor x)"
proof (cases "x = 0")
  case True
  then show ?thesis by simp
next
  case False
  then have x: "0 < x" using assms(1) by simp
  define L where "L = \<lfloor>log 2 \<bar>x\<bar>\<rfloor>"
  define e where "e = max (L - 52) (- 1074)"
  define m where "m = \<lfloor>x / ulp x\<rfloor>"
  have ulp: "ulp x = 2 powr of_int e" by (simp only: ulp_def e_def L_def)
  have d: "double_floor x = of_int m * 2 powr of_int e"
    using False by (simp add: double_floor_def m_def ulp)
  have "x < 2 ^ 53 * ulp x"
  proof (cases "- 1022 \<le> L")
    case True
    then have "e = L - 52" by (simp add: e_def)
    have "x < 2 powr (of_int L + 1)" using floor_log_bounds(2) [OF False] x by (simp add: L_def)
    also have "\<dots> = 2 powr (53 + of_int (L - 52))" by (simp add: add.commute)
    also have "\<dots> = 2 powr 53 * 2 powr of_int (L - 52)" by (rule powr_add)
    also have "(2::real) powr 53 = 2 ^ 53"
    proof -
      have "(2::real) powr of_nat 53 = 2 ^ 53" by (rule powr_realpow) simp
      then show ?thesis by (simp only: of_nat_numeral)
    qed
    finally show ?thesis using \<open>e = L - 52\<close> by (simp add: ulp)
  next
    case False
    then have "\<lfloor>log 2 \<bar>x\<bar>\<rfloor> < - 1022" by (simp add: L_def)
    from ulp_subnormal [OF \<open>x \<noteq> 0\<close> this] x have u: "ulp x = 2 powr (- 1074)" "x < 2 powr (- 1022)"
      by simp_all
    have "(2::real) powr (- 1022) = 2 powr (52 + (- 1074))" by simp
    also have "\<dots> = 2 powr 52 * 2 powr (- 1074)" by (rule powr_add)
    also have "(2::real) powr 52 = 2 ^ 52"
    proof -
      have "(2::real) powr of_nat 52 = 2 ^ 52" by (rule powr_realpow) simp
      then show ?thesis by (simp only: of_nat_numeral)
    qed
    finally have "x < 2 ^ 52 * ulp x" using u by simp
    moreover have "(2::real) ^ 52 * ulp x \<le> 2 ^ 53 * ulp x"
      using ulp_pos [of x] by (intro mult_right_mono) simp_all
    ultimately show ?thesis by linarith
  qed
  then have "x / ulp x < of_int (2 ^ 53)" using ulp_pos [of x] by (simp add: pos_divide_less_eq)
  then have "m < 2 ^ 53" by (simp only: m_def floor_less_iff)
  moreover have "0 \<le> m" using x ulp_pos [of x] by (simp add: m_def)
  ultimately have m: "\<bar>m\<bar> < 2 ^ 53" by simp
  have e: "- 1074 \<le> e" by (simp add: e_def)
  have "(0::real) < 2 powr (- 53)" by simp
  then have "double_floor x \<le> 1" using double_floor_bounds(2) [OF assms] by linarith
  moreover have "0 \<le> double_floor x" using double_floor_bounds(1) [OF assms] .
  ultimately have "\<bar>double_floor x\<bar> < 2 ^ 1024" by simp
  with d m e show ?thesis by (rule double_round_exact)
qed

lemma math_random_always [simp]:
  "math_random (always 0) s = 0" "math_random (always (1 / 2)) s = 1 / 2"
  by (simp_all add: math_random_def)

lemma math_random_fair:
  assumes "fair g"
  shows "0 \<le> math_random g s" "math_random g s \<le> 1 - 2 powr (- 53)"
    "double_round (math_random g s) = Fin (math_random g s)"
  using assms double_floor_bounds [of "g s"] double_floor_double [of "g s"]
  by (simp_all add: math_random_def fair_def)

lemma two_powr_grid: "(2::real) powr (- 1074) = 1 / 2 ^ 1074"
proof -
  have "(2::real) powr (- of_nat 1074) = 1 / 2 powr of_nat 1074" by (rule powr_minus_divide)
  also have "(2::real) powr of_nat 1074 = 2 ^ 1074" by (rule powr_realpow) simp
  finally show ?thesis by (simp only: of_nat_numeral)
qed

subsection \<open>Assignment stays within the centroid list\<close>

lemma converged_zero: "\<not> converged c n (Fin 0)"
proof (cases "n = 0")
  case True
  then show ?thesis by (simp add: converged_def)
next
  case False
  have "0 \<le> real c / real n" by simp
  from double_round_nonneg [OF this] show ?thesis using False by (auto simp: converged_def)
qed

lemma assignStep_bound: "snd st < n \<Longrightarrow> i < n \<Longrightarrow> snd (assignStep v cs st i) < n"
  by (simp add: assignStep_def Let_def)

lemma foldl_assignStep_bound:
  "snd st < n \<Longrightarrow> \<forall>i\<in>set js. i < n \<Longrightarrow> snd (foldl (assignStep v cs) st js) < n"
  by (induction js arbitrary: st) (simp_all add: assignStep_bound)

lemma assignToCentroid_bound: "cs \<noteq> [] \<Longrightarrow> assignToCentroid v cs < length cs"
  unfolding assignToCentroid_def by (rule foldl_assignStep_bound) simp_all

lemma assignAll_bound:
  "cs \<noteq> [] \<Longrightarrow> length cs \<le> k \<Longrightarrow> \<forall>a\<in>set (assignAll vectors cs). a < k"
  proof -
  assume a: "cs \<noteq> []" "length cs \<le> k"
  have "assignToCentroid v cs < k" for v
    using assignToCentroid_bound [OF a(1), of v] a(2) by simp
  then show ?thesis by (simp add: assignAll_def)
qed

lemma length_assignAll: "length (assignAll vectors cs) = length vectors"
  by (simp add: assignAll_def)

lemma seedLoop_bounds:
  "length cs \<le> length (fst (seedLoop vectors k g i cs s)) \<and>
   length (fst (seedLoop vectors k g i cs s)) \<le> length cs + (k - i)"
proof (induction vectors k g i cs s rule: seedLoop.induct)
  case (1 vectors k g i cs s)
  show ?case
  proof (cases "i < k")
    case False
    then show ?thesis by (simp add: seedLoop.simps [of vectors k g i cs s])
  next
    case True
    define ds where "ds = seedDistances vectors cs"
    define r where "r = jmul (Fin (math_random g s)) (totalDist ds)"
    define cs' where "cs' = (case pickIndex ds r 0 of Some j \<Rightarrow> cs @ [vectors ! j] | None \<Rightarrow> cs)"
    have step: "seedLoop vectors k g i cs s = seedLoop vectors k g (Suc i) cs' (Suc s)"
      using True by (subst seedLoop.simps) (simp add: ds_def r_def cs'_def Let_def)
    have len: "length cs \<le> length cs' \<and> length cs' \<le> Suc (length cs)"
      by (simp add: cs'_def split: option.split)
    have ih: "length cs' \<le> length (fst (seedLoop vectors k g (Suc i) cs' (Suc s))) \<and>
        length (fst (seedLoop vectors k g (Suc i) cs' (Suc s))) \<le> length cs' + (k - Suc i)"
      using "1.IH" [OF True ds_def r_def cs'_def] .
    show ?thesis using step len ih True by (simp only:) arith
  qed
qed

text \<open>
  The index drawn is in range: the draw is at most the largest double below 1, and the
  product, rounded or not, stays below \<open>n\<close>.
\<close>

lemma randomIdx_Some:
  "randomIdx g s n = Some r \<Longrightarrow> r < n"
  by (auto simp: randomIdx_def Let_def nat_less_iff split: if_splits jsnum.splits)

lemma randomIdx_fair:
  assumes "fair g" "0 < n"
  shows "\<exists>i<n. randomIdx g s n = Some i"
proof -
  define u where "u = math_random g s"
  have u: "0 \<le> u" "u \<le> 1 - 2 powr (- 53)"
    using math_random_fair [OF assms(1), of s] by (simp_all add: u_def)
  have "(0::real) < 2 powr (- 53)" by simp
  then have u1: "u < 1" using u(2) by linarith
  have "\<exists>p. (if n < 2 ^ 32 then jmul (Fin u) (Fin (real n)) else Fin (u * real n)) = Fin p \<and>
      0 \<le> p \<and> p < real n"
  proof (cases "n < 2 ^ 32")
    case True
    then have "real n < 2 ^ 32" by (metis of_nat_less_iff of_nat_numeral of_nat_power)
    moreover have "(2::real) ^ 32 \<le> 2 ^ 1024" by simp
    ultimately have "real n < 2 ^ 1024" by linarith
    moreover have "1 \<le> real n" using assms(2) by simp
    ultimately show ?thesis using index_product [OF u] True by simp
  next
    case False
    have "u * real n < 1 * real n" using u1 assms(2) by (intro mult_strict_right_mono) simp_all
    then show ?thesis using False u(1) by simp
  qed
  then obtain p where
    p: "(if n < 2 ^ 32 then jmul (Fin u) (Fin (real n)) else Fin (u * real n)) = Fin p"
      "0 \<le> p" "p < real n"
    by blast
  have "0 \<le> \<lfloor>p\<rfloor>" using p(2) by simp
  moreover have "\<lfloor>p\<rfloor> < int n" using p(3) by (simp add: floor_less_iff)
  ultimately have "randomIdx g s n = Some (nat \<lfloor>p\<rfloor>) \<and> nat \<lfloor>p\<rfloor> < n"
    unfolding randomIdx_def u_def [symmetric] p(1) by (simp add: Let_def nat_less_iff)
  then show ?thesis by blast
qed

lemma accumulate_ok:
  "i < length assignments \<Longrightarrow> assignments ! i < k \<Longrightarrow>
   \<exists>st'. accumulate vectors assignments k dimn st i = Inr st' \<and>
     length (fst st') = length (fst st) \<and> length (snd st') = length (snd st) \<and>
     (\<forall>c. c < length (fst st) \<longrightarrow>
        fst st' ! c = fst st ! c + (if assignments ! i = c then 1 else 0))"
  by (simp add: accumulate_def Let_def nth_list_update)

lemma accumulateAll_ok:
  "\<forall>i\<in>set js. i < length assignments \<and> assignments ! i < k \<Longrightarrow>
   \<exists>st'. accumulateAll vectors assignments k dimn st js = Inr st' \<and>
     length (fst st') = length (fst st) \<and> length (snd st') = length (snd st) \<and>
     (\<forall>c. c < length (fst st) \<longrightarrow>
        fst st' ! c = fst st ! c + length (filter (\<lambda>i. assignments ! i = c) js))"
proof (induction js arbitrary: st)
  case Nil
  then show ?case by simp
next
  case (Cons i js)
  from Cons.prems have i: "i < length assignments" "assignments ! i < k" by simp_all
  from accumulate_ok [OF i, of vectors dimn st] obtain st1 where
    st1: "accumulate vectors assignments k dimn st i = Inr st1"
      "length (fst st1) = length (fst st)" "length (snd st1) = length (snd st)"
      "\<forall>c. c < length (fst st) \<longrightarrow>
         fst st1 ! c = fst st ! c + (if assignments ! i = c then 1 else 0)"
    by blast
  from Cons.prems have "\<forall>i\<in>set js. i < length assignments \<and> assignments ! i < k" by simp
  from Cons.IH [OF this, of st1] obtain st' where
    st': "accumulateAll vectors assignments k dimn st1 js = Inr st'"
      "length (fst st') = length (fst st1)" "length (snd st') = length (snd st1)"
      "\<forall>c. c < length (fst st1) \<longrightarrow>
         fst st' ! c = fst st1 ! c + length (filter (\<lambda>i. assignments ! i = c) js)"
    by blast
  have "accumulateAll vectors assignments k dimn st (i # js) = Inr st'"
    using st1(1) st'(1) by simp
  moreover have "\<forall>c. c < length (fst st) \<longrightarrow>
      fst st' ! c = fst st ! c + length (filter (\<lambda>i. assignments ! i = c) (i # js))"
    using st1(2,4) st'(4) by simp
  ultimately show ?case using st1(2,3) st'(2,3) by simp
qed

lemma buildCentroids_ok:
  "vectors \<noteq> [] \<Longrightarrow> fair g \<Longrightarrow>
   \<exists>new s'. buildCentroids vectors counts csums g js cs s = Inr (cs @ new, s') \<and>
     length new = length js \<and>
     (\<forall>j<length js. counts ! (js ! j) = 0 \<longrightarrow> new ! j \<in> set vectors)"
proof (induction js arbitrary: cs s)
  case Nil
  then show ?case by simp
next
  case (Cons i js)
  show ?case
  proof (cases "0 < counts ! i")
    case True
    define c where "c = map (\<lambda>x. jdiv x (Fin (real (counts ! i)))) (csums ! i)"
    from Cons.IH [OF Cons.prems, of "cs @ [c]" s] obtain new s' where
      n: "buildCentroids vectors counts csums g js (cs @ [c]) s = Inr ((cs @ [c]) @ new, s')"
        "length new = length js"
        "\<forall>j<length js. counts ! (js ! j) = 0 \<longrightarrow> new ! j \<in> set vectors"
      by blast
    have 1: "buildCentroids vectors counts csums g (i # js) cs s = Inr (cs @ (c # new), s')"
      using True n(1) by (simp add: c_def)
    have 2: "\<forall>j<length (i # js). counts ! ((i # js) ! j) = 0 \<longrightarrow> (c # new) ! j \<in> set vectors"
      using True n(3) by (auto simp: nth_Cons split: nat.split)
    show ?thesis using 1 2 n(2) by (intro exI [of _ "c # new"] exI [of _ s']) simp
  next
    case False
    from randomIdx_fair [OF Cons.prems(2), of "length vectors" s] Cons.prems(1)
    obtain r where r: "r < length vectors" "randomIdx g s (length vectors) = Some r"
      by auto
    define c where "c = vectors ! r"
    have cin: "c \<in> set vectors" using r(1) by (simp add: c_def)
    from Cons.IH [OF Cons.prems, of "cs @ [c]" "Suc s"] obtain new s' where
      n: "buildCentroids vectors counts csums g js (cs @ [c]) (Suc s) = Inr ((cs @ [c]) @ new, s')"
        "length new = length js"
        "\<forall>j<length js. counts ! (js ! j) = 0 \<longrightarrow> new ! j \<in> set vectors"
      by blast
    have 1: "buildCentroids vectors counts csums g (i # js) cs s = Inr (cs @ (c # new), s')"
      using False n(1) r(2) by (simp add: c_def)
    have 2: "\<forall>j<length (i # js). counts ! ((i # js) ! j) = 0 \<longrightarrow> (c # new) ! j \<in> set vectors"
      using cin n(3) by (auto simp: nth_Cons split: nat.split)
    show ?thesis using 1 2 n(2) by (intro exI [of _ "c # new"] exI [of _ s']) simp
  qed
qed

lemma recalculateCentroids_ok:
  assumes "vectors \<noteq> []" "fair g" "length assignments = length vectors"
    "\<forall>a\<in>set assignments. a < k"
  shows "\<exists>cs s'. recalculateCentroids vectors assignments k dimn g s = Inr (cs, s') \<and>
     length cs = k \<and> (\<forall>c<k. c \<notin> set assignments \<longrightarrow> cs ! c \<in> set vectors)"
proof -
  let ?st = "(replicate k (0::nat), replicate k (replicate dimn (Fin 0)))"
  have "\<forall>i\<in>set [0..<length vectors]. i < length assignments \<and> assignments ! i < k"
    using assms(3,4) by simp
  from accumulateAll_ok [OF this, of vectors dimn ?st] obtain st' where
    st': "accumulateAll vectors assignments k dimn ?st [0..<length vectors] = Inr st'"
      "length (fst st') = k"
      "\<forall>c. c < k \<longrightarrow>
         fst st' ! c = length (filter (\<lambda>i. assignments ! i = c) [0..<length vectors])"
    by auto
  from buildCentroids_ok [OF assms(1,2), of "fst st'" "snd st'" "[0..<k]" "[]" s]
  obtain new s' where
    n: "buildCentroids vectors (fst st') (snd st') g [0..<k] [] s = Inr (new, s')"
      "length new = k"
      "\<forall>j<k. fst st' ! j = 0 \<longrightarrow> new ! j \<in> set vectors"
    by auto
  have r: "recalculateCentroids vectors assignments k dimn g s = Inr (new, s')"
    using st'(1) n(1) by (cases st') (simp add: recalculateCentroids_def)
  have "new ! c \<in> set vectors" if c: "c < k" "c \<notin> set assignments" for c
  proof -
    have "filter (\<lambda>i. assignments ! i = c) [0..<length vectors] = []"
      using c(2) assms(3) by (auto simp: filter_empty_conv)
    then have "fst st' ! c = 0" using st'(3) c(1) by simp
    then show ?thesis using n(3) c(1) by simp
  qed
  then show ?thesis using r n(2) by blast
qed


lemma mainLoop_converged:
  assumes "iter < maxIter"
    and "converged (changed (assignAll vectors centroids) assignments (length vectors))
           (length vectors) tol"
  shows "mainLoop vectors k dimn maxIter tol g iter centroids assignments iterations s =
     Inr (\<lparr>centroids_of = centroids, assignments_of = assignAll vectors centroids,
           iterations_of = iter + 1\<rparr>, s)"
  using assms by (subst mainLoop.simps) (simp add: Let_def)

lemma mainLoop_total:
  "vectors \<noteq> [] \<Longrightarrow> fair g \<Longrightarrow> centroids \<noteq> [] \<Longrightarrow> length centroids \<le> k \<Longrightarrow>
   \<exists>res s'. mainLoop vectors k dimn maxIter tol g iter centroids assignments iterations s
        = Inr (res, s') \<and>
     (if iter < maxIter then iter < iterations_of res \<and> iterations_of res \<le> maxIter
      else iterations_of res = iterations)"
proof (induction vectors k dimn maxIter tol g iter centroids assignments iterations s
    rule: mainLoop.induct)
  case (1 vectors k dimn maxIter tol g iter centroids assignments iterations s)
  let ?new = "assignAll vectors centroids"
  let ?conv = "converged (changed ?new assignments (length vectors)) (length vectors) tol"
  show ?case
  proof (cases "iter < maxIter")
    case False
    then show ?thesis
      by (simp add: mainLoop.simps [of vectors k dimn maxIter tol g iter])
  next
    case True
    show ?thesis
    proof (cases ?conv)
      case c: True
      show ?thesis using True mainLoop_converged [OF True c] by simp
    next
      case c: False
      have "\<forall>a\<in>set ?new. a < k"
        using assignAll_bound "1.prems"(3,4) by blast
      from recalculateCentroids_ok [OF "1.prems"(1,2) length_assignAll this, of dimn s]
      obtain cs s1 where
        r: "recalculateCentroids vectors ?new k dimn g s = Inr (cs, s1)" "length cs = k"
        by blast
      have k: "0 < k" using "1.prems"(3,4) by (cases centroids) simp_all
      have cs: "cs \<noteq> []" "length cs \<le> k" using r(2) k by auto
      have step: "mainLoop vectors k dimn maxIter tol g iter centroids assignments iterations s
          = mainLoop vectors k dimn maxIter tol g (Suc iter) cs ?new (iter + 1) s1"
        using True c r(1)
        by (subst mainLoop.simps) (simp add: Let_def)
      from "1.IH" [OF True refl c r(1) refl "1.prems"(1,2) cs]
      obtain res s' where
        ih: "mainLoop vectors k dimn maxIter tol g (Suc iter) cs ?new (iter + 1) s1 = Inr (res, s')"
          "if Suc iter < maxIter then Suc iter < iterations_of res \<and> iterations_of res \<le> maxIter
           else iterations_of res = iter + 1"
        by blast
      have "iter < iterations_of res \<and> iterations_of res \<le> maxIter"
        using ih(2) True by (auto split: if_splits)
      then show ?thesis using step ih(1) True by simp
    qed
  qed
qed

lemma mainLoop_zero_tolerance:
  "mainLoop vectors k dimn maxIter (Fin 0) g iter centroids assignments iterations s
      = Inr (res, s') \<Longrightarrow>
   iterations_of res = (if iter < maxIter then maxIter else iterations)"
proof (induction vectors k dimn maxIter "Fin 0" g iter centroids assignments iterations s
    rule: mainLoop.induct)
  case (1 vectors k dimn maxIter g iter centroids assignments iterations s)
  let ?new = "assignAll vectors centroids"
  show ?case
  proof (cases "iter < maxIter")
    case False
    then show ?thesis using "1.prems"
      by (auto simp: mainLoop.simps [of vectors k dimn maxIter "Fin 0" g iter])
  next
    case True
    have c: "\<not> converged (changed ?new assignments (length vectors)) (length vectors) (Fin 0)"
      by (rule converged_zero)
    show ?thesis
    proof (cases "recalculateCentroids vectors ?new k dimn g s")
      case (Inl e)
      then show ?thesis using "1.prems" True c
        by (simp add: mainLoop.simps [of vectors k dimn maxIter "Fin 0" g iter] Let_def)
    next
      case (Inr p)
      obtain cs s1 where p: "p = (cs, s1)" by (cases p)
      have step: "mainLoop vectors k dimn maxIter (Fin 0) g (Suc iter) cs ?new (iter + 1) s1
          = Inr (res, s')"
        using "1.prems" True c Inr p
        by (simp add: mainLoop.simps [of vectors k dimn maxIter "Fin 0" g iter] Let_def)
      from "1.hyps" [OF True refl c Inr [unfolded p] refl step]
      have "iterations_of res = (if Suc iter < maxIter then maxIter else iter + 1)"
        by simp
      then show ?thesis using True by (auto split: if_splits)
    qed
  qed
qed


lemma initializeCentroids_ok:
  assumes "vectors \<noteq> []" "fair g" "1 \<le> k"
  shows "\<exists>cs s'. initializeCentroids vectors k g s = Inr (cs, s') \<and> cs \<noteq> [] \<and> length cs \<le> k"
proof -
  from randomIdx_fair [OF assms(2), of "length vectors" s] assms(1)
  obtain r where r: "randomIdx g s (length vectors) = Some r" by auto
  let ?p = "seedLoop vectors k g 1 [vectors ! r] (Suc s)"
  have i: "initializeCentroids vectors k g s = Inr (fst ?p, snd ?p)"
    using assms(1) r by (simp add: initializeCentroids_def)
  have "1 \<le> length (fst ?p) \<and> length (fst ?p) \<le> k"
    using seedLoop_bounds [of "[vectors ! r]" vectors k g 1 "Suc s"] assms(3) by simp
  then have "fst ?p \<noteq> [] \<and> length (fst ?p) \<le> k" by auto
  then show ?thesis using i by blast
qed

lemma kMeansClustering_total:
  assumes "vectors \<noteq> []" "fair g" "1 \<le> opt_k options" "opt_k options \<le> length vectors"
  shows "\<exists>res s'. kMeansClustering vectors options g s = Inr (res, s') \<and>
     (0 < (case opt_maxIterations options of None \<Rightarrow> 100 | Some m \<Rightarrow> m) \<longrightarrow>
        1 \<le> iterations_of res \<and>
        iterations_of res \<le> (case opt_maxIterations options of None \<Rightarrow> 100 | Some m \<Rightarrow> m))"
proof -
  let ?k = "opt_k options"
  let ?m = "case opt_maxIterations options of None \<Rightarrow> 100 | Some m \<Rightarrow> m"
  let ?t = "case opt_tolerance options of None \<Rightarrow> double_round (1 / 10000) | Some t \<Rightarrow> t"
  from initializeCentroids_ok [OF assms(1,2,3), of s] obtain cs s0 where
    i: "initializeCentroids vectors ?k g s = Inr (cs, s0)" "cs \<noteq> []" "length cs \<le> ?k"
    by blast
  from mainLoop_total [OF assms(1,2) i(2,3), of "length (hd vectors)" ?m ?t 0
      "replicate (length vectors) 0" 0 s0]
  obtain res s' where
    m: "mainLoop vectors ?k (length (hd vectors)) ?m ?t g 0 cs (replicate (length vectors) 0) 0 s0
        = Inr (res, s')"
      "if 0 < ?m then 0 < iterations_of res \<and> iterations_of res \<le> ?m else iterations_of res = 0"
    by blast
  have "kMeansClustering vectors options g s = Inr (res, s')"
    using assms(1,4) i(1) m(1) by (simp add: kMeansClustering_def Let_def)
  then show ?thesis using m(2) by (auto split: if_splits)
qed

subsection \<open>The results of the operations are doubles\<close>

lemma is_fin_iff: "is_fin x \<longleftrightarrow> (\<exists>r. x = Fin r)"
  by (cases x) simp_all

lemma on_grid_double_round: "on_grid (double_round x)"
  using double_round_grid [of x] by (simp add: on_grid_def)

lemma on_grid_zero: "on_grid (Fin 0)"
proof -
  have "(0::real) = of_int 0 * 2 powr (- 1074)" by simp
  then show ?thesis unfolding on_grid_def by blast
qed

lemma on_grid_special: "on_grid PInf" "on_grid NInf" "on_grid NaN"
  by (simp_all add: on_grid_def)

lemma on_grid_jadd: "on_grid (jadd x y)"
  by (cases x; cases y) (simp_all add: on_grid_double_round on_grid_special)

lemma on_grid_jsub: "on_grid (jsub x y)"
  by (simp add: jsub_def on_grid_jadd)

lemma on_grid_jmul: "on_grid (jmul x y)"
  by (cases x; cases y) (simp_all add: on_grid_double_round on_grid_special)

lemma on_grid_jdiv: "on_grid (jdiv x y)"
  by (cases x; cases y) (simp_all add: on_grid_double_round on_grid_special on_grid_zero)

lemma on_grid_cosineSimilarity: "on_grid (cosineSimilarity a b)"
  by (simp add: cosineSimilarity_def on_grid_jdiv on_grid_zero)

lemma on_grid_pos:
  assumes "on_grid (Fin x)" "0 < x"
  shows "2 powr (- 1074) \<le> x"
proof -
  from assms(1) obtain k :: int where k: "x = of_int k * 2 powr (- 1074)"
    unfolding on_grid_def by blast
  have "(0::real) = of_int 0 * 2 powr (- 1074)" by simp
  from grid_difference [OF this k assms(2)] show ?thesis by simp
qed

lemma huge_pos: "0 < huge"
  by (simp add: huge_def)

lemma double_round_huge: "double_round huge = Fin huge"
proof -
  have "huge = of_int 1 * 2 powr of_int 700"
    using two_powr_int [of 700] by (simp add: huge_def)
  moreover have "\<bar>huge\<bar> < 2 ^ 1024" by (simp add: huge_def)
  ultimately show ?thesis by (intro double_round_exact [of huge 1 700]) simp_all
qed


lemma double_round_huge_square: "double_round (huge * huge) = PInf"
proof -
  have "(2::real) ^ 1024 \<le> \<bar>huge * huge\<bar>" by (simp add: huge_def)
  from double_round_overflow [OF this] show ?thesis using huge_pos by simp
qed

lemma default_tolerance_pos [simp]: "jlt (Fin 0) (double_round (1 / 10000))"
proof -
  have "(2::real) powr (- 1074) \<le> 1 / 10000"
    by (simp only: two_powr_grid) (simp add: field_simps)
  from double_round_pos [OF this] show ?thesis by auto
qed

subsection \<open>The weighted draw\<close>

lemma pickIndex_NaN: "pickIndex ds NaN j = None"
  by (induction ds arbitrary: j) (simp_all add: jsub_def)

text \<open>
  A positive double less a number that is not positive is at least the smallest positive
  double, and does not round to 0.
\<close>

lemma positive_draw_step:
  assumes "on_grid r" "jlt (Fin 0) r" "jle (jsub r d) (Fin 0)"
  shows "jlt (Fin 0) d"
proof (cases r)
  case (Fin x)
  then have x: "0 < x" using assms(2) by simp
  from on_grid_pos [OF _ x] assms(1) Fin have g: "2 powr (- 1074) \<le> x" by simp
  show ?thesis
  proof (cases d)
    case d: (Fin y)
    show ?thesis
    proof (rule ccontr)
      assume "\<not> jlt (Fin 0) d"
      then have "y \<le> 0" using d by simp
      then have "2 powr (- 1074) \<le> x + - y" using g by simp
      from double_round_pos [OF this] have "\<not> jle (double_round (x + - y)) (Fin 0)" by auto
      then show False using assms(3) Fin d by (simp add: jsub_def)
    qed
  qed (use assms(3) Fin in \<open>simp_all add: jsub_def\<close>)
qed (use assms(2,3) in \<open>cases d; simp_all add: jsub_def\<close>)+

lemma positive_draw_next:
  "\<not> jle r (Fin 0) \<Longrightarrow> r \<noteq> NaN \<Longrightarrow> jlt (Fin 0) r"
  by (cases r) simp_all

lemma pickIndex_positive:
  "pickIndex ds r j0 = Some j \<Longrightarrow> jlt (Fin 0) r \<Longrightarrow> on_grid r \<Longrightarrow>
   j0 \<le> j \<and> j - j0 < length ds \<and> jlt (Fin 0) (ds ! (j - j0))"
proof (induction ds arbitrary: r j0)
  case Nil
  then show ?case by simp
next
  case (Cons d ds)
  show ?case
  proof (cases "jle (jsub r d) (Fin 0)")
    case True
    then have "j = j0" using Cons.prems(1) by simp
    then show ?thesis using positive_draw_step [OF Cons.prems(3,2) True] by simp
  next
    case False
    then have p: "pickIndex ds (jsub r d) (Suc j0) = Some j" using Cons.prems(1) by simp
    then have "jsub r d \<noteq> NaN" using pickIndex_NaN by auto
    from Cons.IH [OF p positive_draw_next [OF False this] on_grid_jsub]
    have "Suc j0 \<le> j \<and> j - Suc j0 < length ds \<and> jlt (Fin 0) (ds ! (j - Suc j0))" .
    then have ih: "Suc j0 \<le> j" "j - Suc j0 < length ds" "jlt (Fin 0) (ds ! (j - Suc j0))"
      by simp_all
    have "j - j0 = Suc (j - Suc j0)" using ih(1) by arith
    then show ?thesis using ih by simp
  qed
qed

lemma totalDist_zero: "\<forall>d\<in>set ds. d = Fin 0 \<Longrightarrow> foldl jadd (Fin 0) ds = Fin 0"
  by (induction ds) simp_all

lemma pickIndex_zero_weights:
  assumes "ds \<noteq> []" "\<forall>d\<in>set ds. d = Fin 0"
  shows "pickIndex ds (jmul (Fin u) (totalDist ds)) 0 = Some 0"
proof -
  obtain d ds' where ds: "ds = d # ds'" using assms(1) by (cases ds) auto
  have "totalDist ds = Fin 0" using totalDist_zero [OF assms(2)] by (simp add: totalDist_def)
  moreover have "d = Fin 0" using assms(2) ds by simp
  ultimately show ?thesis using ds by (simp add: jsub_def)
qed

lemma seed_example:
  "seedDistances [[Fin 1], [Fin 2]] [[Fin 1]] = [Fin 0, Fin 1]"
  by (simp add: seedDistances_def math_min_def jmin2_def euclideanDistance_def num_at_def jsub_def)

subsection \<open>Sorting and collecting the members of a cluster\<close>

lemma length_sortInsert: "length (sortInsert x ys) = Suc (length ys)"
  by (induction ys) simp_all

lemma length_foldr_sortInsert: "length (foldr sortInsert xs []) = length xs"
  by (induction xs) (simp_all add: length_sortInsert)

lemma length_sortBySimilarity:
  "\<forall>ys. length (engine ys) = length ys \<Longrightarrow> length (sortBySimilarity engine xs) = length xs"
  by (simp add: sortBySimilarity_def length_foldr_sortInsert)

lemma set_sortInsert: "set (sortInsert x ys) = insert x (set ys)"
  by (induction ys) auto

lemma mset_sortInsert: "mset (sortInsert x ys) = add_mset x (mset ys)"
  by (induction ys) simp_all

lemma mset_foldr_sortInsert: "mset (foldr sortInsert xs []) = mset xs"
  by (induction xs) (simp_all add: mset_sortInsert)

text \<open>
  On doubles the sign of the comparator is the sign of the exact difference: two
  different doubles differ by the smallest positive double at least.
\<close>

lemma comparator_fin:
  assumes "snd x = Fin a" "snd y = Fin b" "on_grid (snd x)" "on_grid (snd y)"
  shows "jlt (Fin 0) (comparator x y) \<longleftrightarrow> a < b"
proof -
  have c: "comparator x y = double_round (b + - a)"
    using assms(1,2) by (simp add: comparator_def jsub_def)
  show ?thesis
  proof (cases "a < b")
    case True
    from assms obtain ka kb :: int where
      "a = of_int ka * 2 powr (- 1074)" "b = of_int kb * 2 powr (- 1074)"
      unfolding on_grid_def by metis
    from grid_difference [OF this True] have "2 powr (- 1074) \<le> b + - a" by simp
    from double_round_pos [OF this] show ?thesis using True c by auto
  next
    case False
    then have "b + - a \<le> 0" by simp
    from double_round_nonpos [OF this] show ?thesis using False c by auto
  qed
qed

lemma sortInsert_sorted:
  assumes "is_fin (snd x) \<and> on_grid (snd x)" "\<forall>y\<in>set ys. is_fin (snd y) \<and> on_grid (snd y)"
    and "sorted_wrt (\<lambda>a b. jle (snd b) (snd a)) ys"
  shows "sorted_wrt (\<lambda>a b. jle (snd b) (snd a)) (sortInsert x ys)"
  using assms(2,3)
proof (induction ys)
  case Nil
  then show ?case by simp
next
  case (Cons y ys)
  obtain a where a: "snd x = Fin a" using assms(1) by (auto simp: is_fin_iff)
  obtain b where b: "snd y = Fin b" using Cons.prems(1) by (auto simp: is_fin_iff)
  have cmp: "jlt (Fin 0) (comparator x y) \<longleftrightarrow> a < b"
    using comparator_fin [OF a b] assms(1) Cons.prems(1) by simp
  show ?case
  proof (cases "a < b")
    case True
    have "sorted_wrt (\<lambda>a b. jle (snd b) (snd a)) (sortInsert x ys)"
      using Cons by simp
    moreover have "\<forall>z\<in>set (sortInsert x ys). jle (snd z) (snd y)"
      using Cons.prems(2) True a b by (auto simp: set_sortInsert)
    ultimately show ?thesis using True cmp by simp
  next
    case False
    have "jle (snd z) (snd x)" if z: "z \<in> set ys" for z
    proof -
      obtain c where c: "snd z = Fin c" using Cons.prems(1) z by (auto simp: is_fin_iff)
      have "jle (snd z) (snd y)" using Cons.prems(2) z by simp
      then show ?thesis using False a b c by simp
    qed
    then show ?thesis using False cmp Cons.prems(2) a b by simp
  qed
qed

lemma foldr_sortInsert_sorted:
  "\<forall>y\<in>set xs. is_fin (snd y) \<and> on_grid (snd y) \<Longrightarrow>
   sorted_wrt (\<lambda>a b. jle (snd b) (snd a)) (foldr sortInsert xs [])"
proof (induction xs)
  case Nil
  then show ?case by simp
next
  case (Cons x xs)
  have "set (foldr sortInsert xs []) = set xs"
    using mset_foldr_sortInsert [of xs] by (metis set_mset_mset)
  then have "sorted_wrt (\<lambda>a b. jle (snd b) (snd a)) (sortInsert x (foldr sortInsert xs []))"
    using Cons by (intro sortInsert_sorted) simp_all
  then show ?case by simp
qed

lemma clusterPosts_members:
  "\<forall>i\<in>set js. i < length vectors \<Longrightarrow>
   clusterPosts vectors posts centroid assignments c js =
     Inr (map (\<lambda>i. (posts ! i, cosineSimilarity (vectors ! i) centroid))
            (filter (\<lambda>i. i < length assignments \<and> assignments ! i = c) js))"
  by (induction js) simp_all

lemma clusterMembers_on_grid:
  "\<forall>m\<in>set (clusterMembers vectors posts centroids assignments c). on_grid (snd m)"
  by (auto simp: clusterMembers_def on_grid_cosineSimilarity)

lemma representativesFrom_members:
  assumes "length posts \<le> length vectors"
  shows "representativesFrom engine vectors posts centroids assignments topN cl =
     Inr (map (\<lambda>c. map (\<lambda>cp. \<lparr>cluster_of = c, posts_of = [fst cp], similarity_of = snd cp\<rparr>)
                 (take topN (sortBySimilarity engine
                    (clusterMembers vectors posts centroids assignments c)))) cl)"
proof (induction cl)
  case Nil
  then show ?case by simp
next
  case (Cons c cl)
  have "\<forall>i\<in>set [0..<length posts]. i < length vectors" using assms by simp
  from clusterPosts_members [OF this, of posts "centroids ! c" assignments c]
  have "clusterPosts vectors posts (centroids ! c) assignments c [0..<length posts]
      = Inr (clusterMembers vectors posts centroids assignments c)"
    by (simp add: clusterMembers_def)
  then show ?case using Cons by simp
qed

lemma representatives_example:
  "getClusterRepresentatives id [[Fin 1, Fin 0], [Fin 0, Fin 1], [Fin 1, Fin 0]] [''a'', ''b'', ''c'']
     [[Fin 1, Fin 0], [Fin 5, Fin 5]] [0, 0, 0] (Some 2)
   = Inr [[\<lparr>cluster_of = 0, posts_of = [''a''], similarity_of = Fin 1\<rparr>,
           \<lparr>cluster_of = 0, posts_of = [''c''], similarity_of = Fin 1\<rparr>], []]"
  by (simp add: getClusterRepresentatives_def cosineSimilarity_def magnitude_def normA_def normB_def
      dotProduct_def num_at_def jeq_def sortBySimilarity_def comparator_def jsub_def
      numeral_2_eq_2 numeral_3_eq_3 upt_rec double_round_zero double_round_one)

subsection \<open>How many centroids the seeding and a run return\<close>










subsection \<open>What a run does to the store\<close>

lemma frame_refl: "frame h h"
  by (simp add: frame_def)

lemma frame_length:
  assumes "frame h0 h"
  shows "length h0 \<le> length h"
proof -
  have "length (take (length h0) h) = length h0"
    using assms by (simp only: frame_def)
  then show ?thesis by (simp only: length_take)
qed

lemma frame_nth:
  assumes "frame h0 h" "a < length h0"
  shows "h ! a = h0 ! a"
proof -
  have "take (length h0) h ! a = h ! a" using assms(2) by (rule nth_take)
  then show ?thesis using assms(1) by (simp only: frame_def)
qed

lemma frame_alloc:
  assumes "frame h0 h"
  shows "frame h0 (snd (alloc h xs))"
proof -
  have "take (length h0) (h @ [xs]) = take (length h0) h"
    using frame_length [OF assms] by simp
  then show ?thesis using assms by (simp add: frame_def alloc_def)
qed

lemma frame_write:
  assumes "frame h0 h" "length h0 \<le> a"
  shows "frame h0 (h[a := xs])"
proof -
  have "take (length h0) (h[a := xs]) = take (length h0) h"
    using assms(2) by simp
  then show ?thesis using assms(1) by (simp only: frame_def)
qed

lemma fresh_alloc:
  assumes "frame h0 h" "fresh h0 h cs"
  shows "fresh h0 (snd (alloc h xs)) (cs @ [fst (alloc h xs)])"
  using frame_length [OF assms(1)] assms(2)
  by (auto simp: fresh_def alloc_def list_all_iff)

lemma fresh_mono:
  "fresh h0 h cs \<Longrightarrow> length h \<le> length h' \<Longrightarrow> fresh h0 h' cs"
  by (auto simp: fresh_def list_all_iff)

lemma seedLoopS_frame:
  "frame h0 h \<Longrightarrow> fresh h0 h cs \<Longrightarrow>
   frame h0 (fst (snd (seedLoopS h vs k g i cs s))) \<and>
   fresh h0 (fst (snd (seedLoopS h vs k g i cs s))) (fst (seedLoopS h vs k g i cs s))"
proof (induction h vs k g i cs s rule: seedLoopS.induct)
  case (1 h vs k g i cs s)
  show ?case
  proof (cases "i < k")
    case False
    then show ?thesis using "1.prems" by (simp add: seedLoopS.simps [of h vs k g i cs s])
  next
    case True
    define ds where "ds = seedDistances (deref h vs) (deref h cs)"
    define r where "r = jmul (Fin (math_random g s)) (totalDist ds)"
    define p where "p = (case pickIndex ds r 0 of
                    Some j \<Rightarrow> (let q = spread h (vs ! j) in (cs @ [fst q], snd q))
                  | None \<Rightarrow> (cs, h))"
    have step: "seedLoopS h vs k g i cs s = seedLoopS (snd p) vs k g (Suc i) (fst p) (Suc s)"
      using True by (subst seedLoopS.simps) (simp add: ds_def r_def p_def Let_def)
    have inv: "frame h0 (snd p) \<and> fresh h0 (snd p) (fst p)"
    proof (cases "pickIndex ds r 0")
      case None
      then show ?thesis using "1.prems" by (simp add: p_def)
    next
      case (Some j)
      then have "p = (cs @ [fst (alloc h (h ! (vs ! j)))], snd (alloc h (h ! (vs ! j))))"
        by (simp add: p_def spread_def Let_def)
      then show ?thesis
        using frame_alloc [OF "1.prems"(1)] fresh_alloc [OF "1.prems"] by simp
    qed
    from "1.IH" [OF True ds_def r_def p_def] inv show ?thesis
      by (simp only: step)
  qed
qed


lemma initializeCentroidsS_frame:
  assumes "initializeCentroidsS h vs k g s = Inr (cs, h', s')"
  shows "frame h h' \<and> fresh h h' cs"
proof -
  from assms obtain j where
    r: "seedLoopS (snd (spread h (vs ! j))) vs k g 1 [fst (spread h (vs ! j))] (Suc s) = (cs, h', s')"
    by (auto simp: initializeCentroidsS_def Let_def split: if_splits option.splits)
  let ?q = "alloc h (h ! (vs ! j))"
  have "frame h (snd ?q)" using frame_alloc [OF frame_refl] .
  moreover have "fresh h (snd ?q) ([] @ [fst ?q])"
    by (rule fresh_alloc [OF frame_refl]) (simp add: fresh_def)
  ultimately have "frame h (fst (snd (seedLoopS (snd ?q) vs k g 1 [fst ?q] (Suc s)))) \<and>
      fresh h (fst (snd (seedLoopS (snd ?q) vs k g 1 [fst ?q] (Suc s))))
        (fst (seedLoopS (snd ?q) vs k g 1 [fst ?q] (Suc s)))"
    by (intro seedLoopS_frame) simp_all
  then show ?thesis using r by (simp add: spread_def)
qed

lemma allocRows_frame:
  "frame h0 h \<Longrightarrow>
   frame h0 (snd (allocRows h m dimn)) \<and> (\<forall>a\<in>set (fst (allocRows h m dimn)). length h0 \<le> a)"
proof (induction m arbitrary: h)
  case 0
  then show ?case by simp
next
  case (Suc m)
  let ?q = "alloc h (replicate dimn (Fin 0))"
  have f: "frame h0 (snd ?q)" using frame_alloc [OF Suc.prems] .
  have "length h0 \<le> fst ?q" using frame_length [OF Suc.prems] by (simp add: alloc_def)
  then show ?case using Suc.IH [OF f] by (simp add: Let_def)
qed

lemma foldl_addInto_frame:
  "frame h0 h \<Longrightarrow> length h0 \<le> row \<Longrightarrow> frame h0 (foldl (addInto row v) h ds)"
proof (induction ds arbitrary: h)
  case Nil
  then show ?case by simp
next
  case (Cons d ds)
  have "frame h0 (addInto row v h d)"
    unfolding addInto_def using Cons.prems by (rule frame_write)
  from Cons.IH [OF this Cons.prems(2)] show ?case by simp
qed

lemma accumulateS_frame:
  assumes "frame h0 (snd (snd st))" "\<forall>a\<in>set (fst (snd st)). length h0 \<le> a"
    and "length (fst (snd st)) = k"
    and "accumulateS vs assignments k dimn st i = Inr st'"
  shows "frame h0 (snd (snd st')) \<and> fst (snd st') = fst (snd st)"
proof (cases "i < length assignments \<and> assignments ! i < k")
  case True
  then have "length h0 \<le> fst (snd st) ! (assignments ! i)"
    using assms(2,3) by simp
  from foldl_addInto_frame [OF assms(1) this, of "vs ! i" "[0..<dimn]"] show ?thesis
    using True assms(4) by (auto simp: accumulateS_def Let_def)
next
  case False
  then show ?thesis using assms(1,4) by (auto simp: accumulateS_def split: if_splits)
qed

lemma accumulateAllS_frame:
  "frame h0 (snd (snd st)) \<Longrightarrow> \<forall>a\<in>set (fst (snd st)). length h0 \<le> a \<Longrightarrow>
   length (fst (snd st)) = k \<Longrightarrow>
   accumulateAllS vs assignments k dimn st js = Inr st' \<Longrightarrow>
   frame h0 (snd (snd st'))"
proof (induction js arbitrary: st)
  case Nil
  then show ?case by simp
next
  case (Cons i js)
  from Cons.prems(4) obtain st1 where
    st1: "accumulateS vs assignments k dimn st i = Inr st1"
      "accumulateAllS vs assignments k dimn st1 js = Inr st'"
    by (auto split: sum.splits)
  from accumulateS_frame [OF Cons.prems(1,2,3) st1(1)]
  have "frame h0 (snd (snd st1))" "fst (snd st1) = fst (snd st)" by simp_all
  then show ?case using Cons.IH [of st1] Cons.prems(2,3) st1(2) by simp
qed

lemma buildCentroidsS_frame:
  "frame h0 h \<Longrightarrow> fresh h0 h cs \<Longrightarrow>
   buildCentroidsS vs counts csums g js cs h s = Inr (cs', h', s') \<Longrightarrow>
   frame h0 h' \<and> fresh h0 h' cs'"
proof (induction js arbitrary: cs h s)
  case Nil
  then show ?case by simp
next
  case (Cons i js)
  show ?case
  proof (cases "0 < counts ! i")
    case True
    let ?q = "alloc h (map (\<lambda>x. jdiv x (Fin (real (counts ! i)))) (h ! (csums ! i)))"
    have "buildCentroidsS vs counts csums g js (cs @ [fst ?q]) (snd ?q) s = Inr (cs', h', s')"
      using Cons.prems(3) True by (simp add: Let_def)
    from Cons.IH [OF frame_alloc [OF Cons.prems(1)] fresh_alloc [OF Cons.prems(1,2)] this]
    show ?thesis .
  next
    case False
    then obtain r where
      r: "buildCentroidsS vs counts csums g js (cs @ [fst (alloc h (h ! (vs ! r)))])
            (snd (alloc h (h ! (vs ! r)))) (Suc s) = Inr (cs', h', s')"
      using Cons.prems(3) by (auto simp: Let_def spread_def split: option.splits)
    from Cons.IH [OF frame_alloc [OF Cons.prems(1)] fresh_alloc [OF Cons.prems(1,2)] this]
    show ?thesis .
  qed
qed

lemma recalculateCentroidsS_frame:
  assumes "frame h0 h"
    and "recalculateCentroidsS h vs assignments k dimn g s = Inr (cs, h', s')"
  shows "frame h0 h' \<and> fresh h0 h' cs"
proof -
  let ?p = "allocRows h k dimn"
  from assms(2) obtain counts csums h1 where
    a: "accumulateAllS vs assignments k dimn (replicate k 0, fst ?p, snd ?p) [0..<length vs]
          = Inr (counts, csums, h1)"
    and b: "buildCentroidsS vs counts csums g [0..<k] [] h1 s = Inr (cs, h', s')"
    by (auto simp: recalculateCentroidsS_def Let_def split: sum.splits)
  have len: "length (fst (allocRows h k dimn)) = k" for h
    by (induction k arbitrary: h) (simp_all add: Let_def)
  from allocRows_frame [OF assms(1), of k dimn]
  have p: "frame h0 (snd ?p)" "\<forall>a\<in>set (fst ?p). length h0 \<le> a" by simp_all
  have "frame h0 h1"
    using accumulateAllS_frame [of h0 "(replicate k 0, fst ?p, snd ?p)" k vs assignments dimn
        "[0..<length vs]" "(counts, csums, h1)"] p len a
    by simp
  moreover have "fresh h0 h1 []" by (simp add: fresh_def)
  ultimately show ?thesis using buildCentroidsS_frame b by blast
qed

lemma mainLoopS_frame:
  "frame h0 h \<Longrightarrow> fresh h0 h cs \<Longrightarrow>
   mainLoopS h vs k dimn maxIter tol g iter cs assignments iterations s = Inr (res, h', s') \<Longrightarrow>
   frame h0 h' \<and> fresh h0 h' (centroid_refs res)"
proof (induction h vs k dimn maxIter tol g iter cs assignments iterations s
    rule: mainLoopS.induct)
  case (1 h vs k dimn maxIter tol g iter cs assignments iterations s)
  let ?new = "assignAll (deref h vs) (deref h cs)"
  let ?conv = "converged (changed ?new assignments (length vs)) (length vs) tol"
  show ?case
  proof (cases "iter < maxIter \<and> \<not> ?conv")
    case False
    then show ?thesis using "1.prems"
      by (auto simp: mainLoopS.simps [of h vs k dimn maxIter tol g iter] Let_def
          split: if_splits)
  next
    case True
    from "1.prems"(3) True obtain cs1 h1 s1 where
      r: "recalculateCentroidsS h vs ?new k dimn g s = Inr (cs1, h1, s1)"
      and m: "mainLoopS h1 vs k dimn maxIter tol g (Suc iter) cs1 ?new (iter + 1) s1
          = Inr (res, h', s')"
      by (auto simp: mainLoopS.simps [of h vs k dimn maxIter tol g iter] Let_def
          split: sum.splits)
    from recalculateCentroidsS_frame [OF "1.prems"(1) r]
    have f: "frame h0 h1" "fresh h0 h1 cs1" by simp_all
    from True have t: "iter < maxIter" "\<not> ?conv" by simp_all
    from "1.IH" [OF t(1) refl t(2) r refl refl f m] show ?thesis .
  qed
qed

lemma kMeansClusteringS_frame:
  assumes "kMeansClusteringS h vs options g s = Inr (res, h', s')"
  shows "frame h h' \<and> fresh h h' (centroid_refs res)"
proof -
  from assms obtain cs h1 s1 where
    i: "initializeCentroidsS h vs (opt_k options) g s = Inr (cs, h1, s1)"
    and m: "mainLoopS h1 vs (opt_k options) (length (h ! hd vs))
        (case opt_maxIterations options of None \<Rightarrow> 100 | Some m \<Rightarrow> m)
        (case opt_tolerance options of None \<Rightarrow> double_round (1 / 10000) | Some t \<Rightarrow> t) g
        0 cs (replicate (length vs) 0) 0 s1 = Inr (res, h', s')"
    by (auto simp: kMeansClusteringS_def Let_def split: if_splits sum.splits)
  from initializeCentroidsS_frame [OF i] mainLoopS_frame [OF _ _ m] show ?thesis by blast
qed


lemma frame_deref:
  assumes "frame h0 h" "list_all (\<lambda>a. a < length h0) vs"
  shows "deref h vs = deref h0 vs"
  using assms(2) frame_nth [OF assms(1)] by (simp add: deref_def list_all_iff)

lemma fresh_not_input:
  assumes "fresh h0 h cs" "list_all (\<lambda>a. a < length h0) vs"
  shows "list_all (\<lambda>c. c \<notin> set vs) cs"
  using assms by (fastforce simp: fresh_def list_all_iff)

lemma write_input_keeps_centroids:
  assumes "list_all (\<lambda>c. c \<notin> set vs) cs" "a \<in> set vs"
  shows "deref (h[a := xs]) cs = deref h cs"
proof -
  have "h[a := xs] ! c = h ! c" if "c \<in> set cs" for c
  proof -
    have "a \<noteq> c" using that assms by (auto simp: list_all_iff)
    then show ?thesis by (rule nth_list_update_neq)
  qed
  then show ?thesis by (simp add: deref_def)
qed

lemma run_example:
  "kMeansClusteringS [[Fin 0], [Fin 4]] [0, 1]
    \<lparr>opt_k = 1, opt_maxIterations = Some 2, opt_tolerance = Some (Fin 0)\<rparr> (always (1 / 2)) 0 =
   Inr (\<lparr>centroid_refs = [6], assignmentsS = [0, 0], iterationsS = 2\<rparr>,
        [[Fin 0], [Fin 4], [Fin 4], [Fin 4], [Fin 2], [Fin 4], [Fin 2]], 1)"
  by (simp add: kMeansClusteringS_def initializeCentroidsS_def randomIdx_def seedLoopS.simps
      mainLoopS.simps deref_def assignAll_def assignToCentroid_def assignStep_def
      euclideanDistance_def num_at_def jsub_def changed_def converged_def spread_def
      recalculateCentroidsS_def accumulateS_def addInto_def alloc_def numeral_2_eq_2 upt_rec)

lemma seed_run_example:
  "initializeCentroidsS [[Fin 0], [Fin 4]] [0, 1] 2 (always (1 / 2)) 0
     = Inr ([2, 3], [[Fin 0], [Fin 4], [Fin 4], [Fin 0]], 2)"
  by (simp add: initializeCentroidsS_def randomIdx_def seedLoopS.simps deref_def
      euclideanDistance_def num_at_def jsub_def spread_def alloc_def
      seedDistances_def totalDist_def math_min_def jmin2_def)

subsection \<open>The store model computes the values of the value model\<close>

lemma deref_alloc:
  "list_all (\<lambda>a. a < length h) as \<Longrightarrow> deref (snd (alloc h xs)) as = deref h as"
  by (simp add: deref_def alloc_def list_all_iff nth_append)

lemma deref_alloc_new:
  "list_all (\<lambda>a. a < length h) as \<Longrightarrow>
   deref (snd (alloc h xs)) (as @ [fst (alloc h xs)]) = deref h as @ [xs]"
  by (simp add: deref_def alloc_def list_all_iff nth_append)

lemma valid_alloc:
  "list_all (\<lambda>a. a < length h) as \<Longrightarrow> list_all (\<lambda>a. a < length (snd (alloc h xs))) as"
  by (auto simp: alloc_def list_all_iff)

lemma valid_alloc_new:
  "list_all (\<lambda>a. a < length h) as \<Longrightarrow>
   list_all (\<lambda>a. a < length (snd (alloc h xs))) (as @ [fst (alloc h xs)])"
  by (auto simp: alloc_def list_all_iff)

lemma pickIndex_bound:
  "pickIndex ds r j0 = Some j \<Longrightarrow> j0 \<le> j \<and> j < j0 + length ds"
proof (induction ds arbitrary: r j0)
  case Nil
  then show ?case by simp
next
  case (Cons d ds)
  show ?case
  proof (cases "jle (jsub r d) (Fin 0)")
    case True
    then show ?thesis using Cons.prems by simp
  next
    case False
    then have "pickIndex ds (jsub r d) (Suc j0) = Some j" using Cons.prems by simp
    from Cons.IH [OF this] show ?thesis by simp
  qed
qed

lemma randomIdx_bound: "randomIdx g s n = Some r \<Longrightarrow> r < n"
  by (rule randomIdx_Some)

lemma deref_nth: "i < length as \<Longrightarrow> deref h as ! i = h ! (as ! i)"
  by (simp add: deref_def)

lemma seedLoopS_refines:
  "list_all (\<lambda>a. a < length h) vs \<Longrightarrow> list_all (\<lambda>a. a < length h) cs \<Longrightarrow>
   seedLoop (deref h vs) k g i (deref h cs) s =
     (deref (fst (snd (seedLoopS h vs k g i cs s))) (fst (seedLoopS h vs k g i cs s)),
      snd (snd (seedLoopS h vs k g i cs s)))"
proof (induction h vs k g i cs s rule: seedLoopS.induct)
  case (1 h vs k g i cs s)
  show ?case
  proof (cases "i < k")
    case False
    then show ?thesis
      by (simp add: seedLoopS.simps [of h vs k g i cs s]
          seedLoop.simps [of "deref h vs" k g i "deref h cs" s])
  next
    case True
    define ds where "ds = seedDistances (deref h vs) (deref h cs)"
    define r where "r = jmul (Fin (math_random g s)) (totalDist ds)"
    define p where "p = (case pickIndex ds r 0 of
                    Some j \<Rightarrow> (let q = spread h (vs ! j) in (cs @ [fst q], snd q))
                  | None \<Rightarrow> (cs, h))"
    define C where "C = (case pickIndex ds r 0 of
                    Some j \<Rightarrow> deref h cs @ [deref h vs ! j] | None \<Rightarrow> deref h cs)"
    have step: "seedLoopS h vs k g i cs s = seedLoopS (snd p) vs k g (Suc i) (fst p) (Suc s)"
      using True by (subst seedLoopS.simps) (simp add: ds_def r_def p_def Let_def)
    have pure: "seedLoop (deref h vs) k g i (deref h cs) s
        = seedLoop (deref h vs) k g (Suc i) C (Suc s)"
      using True by (subst seedLoop.simps) (simp add: ds_def r_def C_def Let_def)
    have inv: "list_all (\<lambda>a. a < length (snd p)) vs \<and> list_all (\<lambda>a. a < length (snd p)) (fst p) \<and>
        deref (snd p) vs = deref h vs \<and> deref (snd p) (fst p) = C"
    proof (cases "pickIndex ds r 0")
      case None
      then show ?thesis using "1.prems" by (simp add: p_def C_def)
    next
      case (Some j)
      have "length ds = length vs" by (simp add: ds_def seedDistances_def deref_def)
      then have j: "j < length vs" using pickIndex_bound [OF Some] by simp
      have p: "p = (cs @ [fst (alloc h (h ! (vs ! j)))], snd (alloc h (h ! (vs ! j))))"
        using Some by (simp add: p_def spread_def Let_def)
      have C: "C = deref h cs @ [h ! (vs ! j)]"
        using Some deref_nth [OF j] by (simp add: C_def)
      show ?thesis
        using valid_alloc [OF "1.prems"(1)] valid_alloc_new [OF "1.prems"(2)]
          deref_alloc [OF "1.prems"(1)] deref_alloc_new [OF "1.prems"(2)]
        by (simp add: p C)
    qed
    from "1.IH" [OF True ds_def r_def p_def] inv
    have "seedLoop (deref h vs) k g (Suc i) C (Suc s) =
      (deref (fst (snd (seedLoopS (snd p) vs k g (Suc i) (fst p) (Suc s))))
         (fst (seedLoopS (snd p) vs k g (Suc i) (fst p) (Suc s))),
       snd (snd (seedLoopS (snd p) vs k g (Suc i) (fst p) (Suc s))))"
      by simp
    then show ?thesis by (simp only: step pure)
  qed
qed

lemma initializeCentroidsS_refines:
  assumes "list_all (\<lambda>a. a < length h) vs"
  shows "absC (initializeCentroidsS h vs k g s) = initializeCentroids (deref h vs) k g s"
proof (cases "vs = [] \<or> randomIdx g s (length vs) = None")
  case True
  then show ?thesis
    by (auto simp: initializeCentroidsS_def initializeCentroids_def deref_def)
next
  case False
  then obtain j where j: "randomIdx g s (length vs) = Some j" "vs \<noteq> []" by auto
  then have jl: "j < length vs" using randomIdx_bound by blast
  let ?q = "alloc h (h ! (vs ! j))"
  have v: "list_all (\<lambda>a. a < length (snd ?q)) vs" using valid_alloc [OF assms] .
  have c: "list_all (\<lambda>a. a < length (snd ?q)) [fst ?q]" by (simp add: alloc_def)
  have d: "deref (snd ?q) vs = deref h vs" using deref_alloc [OF assms] .
  have e: "deref (snd ?q) [fst ?q] = [deref h vs ! j]"
    using deref_nth [OF jl, of h] by (simp add: deref_def alloc_def)
  from seedLoopS_refines [OF v c, of k g 1 "Suc s"]
  have "seedLoop (deref h vs) k g 1 [deref h vs ! j] (Suc s) =
     (deref (fst (snd (seedLoopS (snd ?q) vs k g 1 [fst ?q] (Suc s))))
        (fst (seedLoopS (snd ?q) vs k g 1 [fst ?q] (Suc s))),
      snd (snd (seedLoopS (snd ?q) vs k g 1 [fst ?q] (Suc s))))"
    by (simp only: d e)
  then show ?thesis using j
    by (cases "seedLoopS (snd ?q) vs k g 1 [fst ?q] (Suc s)")
      (simp add: initializeCentroidsS_def initializeCentroids_def spread_def Let_def deref_def)
qed


lemma allocRows_eq:
  "allocRows h m dimn = ([length h..<length h + m], h @ replicate m (replicate dimn (Fin 0)))"
proof (induction m arbitrary: h)
  case 0
  then show ?case by simp
next
  case (Suc m)
  have "[length h..<length h + Suc m] = length h # [Suc (length h)..<Suc (length h) + m]"
    by (simp add: upt_conv_Cons)
  then show ?case
    by (simp add: Suc.IH alloc_def Let_def replicate_app_Cons_same del: upt_Suc)
qed

lemma foldl_addInto_upto:
  assumes "row < length h" "v \<noteq> row" "length (h ! row) = dimn"
  shows "m \<le> dimn \<Longrightarrow>
   foldl (addInto row v) h [0..<m] =
     h[row := map (\<lambda>d. if d < m then jadd (h ! row ! d) (num_at (h ! v) d) else h ! row ! d)
                [0..<dimn]]"
proof (induction m)
  case 0
  have "map (\<lambda>d. h ! row ! d) [0..<dimn] = h ! row"
    using assms(3) map_nth [of "h ! row"] by simp
  then show ?case by simp
next
  case (Suc m)
  let ?R = "map (\<lambda>d. if d < m then jadd (h ! row ! d) (num_at (h ! v) d) else h ! row ! d)
              [0..<dimn]"
  let ?H = "h[row := ?R]"
  have m: "m < dimn" using Suc.prems by simp
  have ih: "foldl (addInto row v) h [0..<m] = ?H" using Suc by simp
  have r: "?H ! row = ?R" using assms(1) by simp
  have v: "?H ! v = h ! v" using assms(2) by simp
  have rm: "?R ! m = h ! row ! m" using m by simp
  have "?R[m := jadd (?R ! m) (num_at (h ! v) m)] =
      map (\<lambda>d. if d < Suc m then jadd (h ! row ! d) (num_at (h ! v) d) else h ! row ! d) [0..<dimn]"
    by (rule nth_equalityI) (auto simp: nth_list_update rm less_Suc_eq)
  then have "addInto row v ?H m =
      h[row := map (\<lambda>d. if d < Suc m then jadd (h ! row ! d) (num_at (h ! v) d) else h ! row ! d)
                 [0..<dimn]]"
    unfolding addInto_def by (simp only: r v list_update_overwrite)
  then show ?case using ih by simp
qed

lemma foldl_addInto:
  assumes "row < length h" "v \<noteq> row" "length (h ! row) = dimn"
  shows "foldl (addInto row v) h [0..<dimn] =
     h[row := map (\<lambda>d. jadd (h ! row ! d) (num_at (h ! v) d)) [0..<dimn]]"
proof -
  have eq: "map (\<lambda>d. if d < dimn then jadd (h ! row ! d) (num_at (h ! v) d) else h ! row ! d) [0..<dimn]
      = map (\<lambda>d. jadd (h ! row ! d) (num_at (h ! v) d)) [0..<dimn]"
    by simp
  have "foldl (addInto row v) h [0..<dimn] =
     h[row := map (\<lambda>d. if d < dimn then jadd (h ! row ! d) (num_at (h ! v) d) else h ! row ! d)
                [0..<dimn]]"
    by (rule foldl_addInto_upto [OF assms]) simp
  then show ?thesis by (simp only: eq)
qed

lemma deref_update_row:
  assumes "distinct rows" "c < length rows" "rows ! c < length h"
  shows "deref (h[rows ! c := R]) rows = (deref h rows)[c := R]"
proof (rule nth_equalityI)
  show "length (deref (h[rows ! c := R]) rows) = length ((deref h rows)[c := R])"
    by (simp add: deref_def)
next
  fix j
  assume "j < length (deref (h[rows ! c := R]) rows)"
  then have j: "j < length rows" by (simp add: deref_def)
  show "deref (h[rows ! c := R]) rows ! j = (deref h rows)[c := R] ! j"
  proof (cases "j = c")
    case True
    then show ?thesis using assms(2,3) by (simp add: deref_def)
  next
    case False
    then have "rows ! j \<noteq> rows ! c"
      using assms(1,2) j by (simp add: nth_eq_iff_index_eq)
    then show ?thesis using False j by (simp add: deref_def)
  qed
qed

lemma deref_update_other:
  "row \<notin> set vs \<Longrightarrow> deref (h[row := R]) vs = deref h vs"
  by (simp add: deref_def) (metis nth_list_update_neq)


lemma accumulateS_step:
  assumes "rows_ok h vs rows dimn" "length rows = k" "i < length vs"
  shows "(\<exists>e. accumulateS vs asg k dimn (counts, rows, h) i = Inl e \<and>
            accumulate (deref h vs) asg k dimn (counts, deref h rows) i = Inl e) \<or>
         (\<exists>counts' h'. accumulateS vs asg k dimn (counts, rows, h) i = Inr (counts', rows, h') \<and>
            accumulate (deref h vs) asg k dimn (counts, deref h rows) i
              = Inr (counts', deref h' rows) \<and>
            deref h' vs = deref h vs \<and> length h' = length h \<and> rows_ok h' vs rows dimn)"
proof (cases "i < length asg \<and> asg ! i < k")
  case False
  then show ?thesis using assms(1)
    by (cases "0 < dimn") (auto simp: accumulateS_def accumulate_def)
next
  case True
  define c where "c = asg ! i"
  define row where "row = rows ! c"
  define R where "R = map (\<lambda>d. jadd (h ! row ! d) (num_at (h ! (vs ! i)) d)) [0..<dimn]"
  have c: "c < length rows" using True assms(2) by (simp add: c_def)
  then have rowin: "row \<in> set rows" by (simp add: row_def)
  then have row: "row < length h" "row \<notin> set vs" "length (h ! row) = dimn"
    using assms(1) by (auto simp: rows_ok_def list_all_iff)
  have vi: "vs ! i \<noteq> row" using row(2) assms(3) by (metis nth_mem)
  have f: "foldl (addInto row (vs ! i)) h [0..<dimn] = h[row := R]"
    unfolding R_def using row(1) vi row(3) by (rule foldl_addInto)
  have s: "accumulateS vs asg k dimn (counts, rows, h) i
      = Inr (counts[c := counts ! c + 1], rows, h[row := R])"
    using True f by (simp add: accumulateS_def Let_def c_def row_def)
  have dr: "deref h rows ! c = h ! row" using c by (simp add: deref_def row_def)
  have dv: "deref h vs ! i = h ! (vs ! i)" using assms(3) by (simp add: deref_def)
  have p: "accumulate (deref h vs) asg k dimn (counts, deref h rows) i
      = Inr (counts[c := counts ! c + 1], (deref h rows)[c := R])"
    using True by (simp add: accumulate_def Let_def c_def [symmetric] dr dv R_def)
  have u: "deref (h[row := R]) rows = (deref h rows)[c := R]"
    unfolding row_def using assms(1) c row(1)
    by (intro deref_update_row) (simp_all add: rows_ok_def row_def)
  have w: "deref (h[row := R]) vs = deref h vs"
    using row(2) by (rule deref_update_other)
  have "length (h[row := R] ! a) = dimn" if "a \<in> set rows" for a
    using that assms(1) row(1)
    by (cases "a = row") (auto simp: rows_ok_def list_all_iff R_def)
  then have ok: "rows_ok (h[row := R]) vs rows dimn"
    using assms(1) by (auto simp: rows_ok_def list_all_iff)
  show ?thesis using s p u w ok by simp
qed

lemma accumulateAllS_refines:
  "rows_ok h vs rows dimn \<Longrightarrow> length rows = k \<Longrightarrow> \<forall>i\<in>set js. i < length vs \<Longrightarrow>
   (\<exists>e. accumulateAllS vs asg k dimn (counts, rows, h) js = Inl e \<and>
         accumulateAll (deref h vs) asg k dimn (counts, deref h rows) js = Inl e) \<or>
   (\<exists>counts' h'. accumulateAllS vs asg k dimn (counts, rows, h) js = Inr (counts', rows, h') \<and>
         accumulateAll (deref h vs) asg k dimn (counts, deref h rows) js
           = Inr (counts', deref h' rows) \<and>
         deref h' vs = deref h vs \<and> length h' = length h \<and> rows_ok h' vs rows dimn)"
proof (induction js arbitrary: counts h)
  case Nil
  then show ?case by simp
next
  case (Cons i js)
  have i: "i < length vs" using Cons.prems(3) by simp
  from accumulateS_step [OF Cons.prems(1,2) i, of asg counts]
  consider (err) e where "accumulateS vs asg k dimn (counts, rows, h) i = Inl e"
      "accumulate (deref h vs) asg k dimn (counts, deref h rows) i = Inl e"
    | (ok) counts1 h1 where
      "accumulateS vs asg k dimn (counts, rows, h) i = Inr (counts1, rows, h1)"
      "accumulate (deref h vs) asg k dimn (counts, deref h rows) i = Inr (counts1, deref h1 rows)"
      "deref h1 vs = deref h vs" "length h1 = length h" "rows_ok h1 vs rows dimn"
    by blast
  then show ?case
  proof cases
    case err
    then show ?thesis by simp
  next
    case ok
    have js: "\<forall>i\<in>set js. i < length vs" using Cons.prems(3) by simp
    from Cons.IH [OF ok(5) Cons.prems(2) js, of counts1] show ?thesis
      using ok(1,2,3,4) by auto
  qed
qed

lemma buildCentroidsS_refines:
  "list_all (\<lambda>a. a < length h) vs \<Longrightarrow> list_all (\<lambda>a. a < length h) rows \<Longrightarrow>
   list_all (\<lambda>a. a < length h) cs \<Longrightarrow> \<forall>i\<in>set js. i < length rows \<Longrightarrow>
   absC (buildCentroidsS vs counts rows g js cs h s) =
     buildCentroids (deref h vs) counts (deref h rows) g js (deref h cs) s"
proof (induction js arbitrary: cs h s)
  case Nil
  then show ?case by simp
next
  case (Cons i js)
  have i: "i < length rows" using Cons.prems(4) by simp
  have js: "\<forall>i\<in>set js. i < length rows" using Cons.prems(4) by simp
  show ?case
  proof (cases "0 < counts ! i")
    case True
    let ?c = "map (\<lambda>x. jdiv x (Fin (real (counts ! i)))) (h ! (rows ! i))"
    let ?q = "alloc h ?c"
    have "absC (buildCentroidsS vs counts rows g js (cs @ [fst ?q]) (snd ?q) s) =
        buildCentroids (deref (snd ?q) vs) counts (deref (snd ?q) rows) g js
          (deref (snd ?q) (cs @ [fst ?q])) s"
      using valid_alloc [OF Cons.prems(1)] valid_alloc [OF Cons.prems(2)]
        valid_alloc_new [OF Cons.prems(3)] js
      by (intro Cons.IH)
    then have "absC (buildCentroidsS vs counts rows g js (cs @ [fst ?q]) (snd ?q) s) =
        buildCentroids (deref h vs) counts (deref h rows) g js (deref h cs @ [?c]) s"
      by (simp only: deref_alloc [OF Cons.prems(1)] deref_alloc [OF Cons.prems(2)]
          deref_alloc_new [OF Cons.prems(3)])
    then show ?thesis using True deref_nth [OF i, of h] by (simp add: Let_def)
  next
    case False
    show ?thesis
    proof (cases "randomIdx g s (length vs)")
      case None
      then show ?thesis using False by (simp add: deref_def)
    next
      case (Some r)
      have r: "r < length vs" using randomIdx_bound [OF Some] .
      let ?c = "h ! (vs ! r)"
      let ?q = "alloc h ?c"
      have "absC (buildCentroidsS vs counts rows g js (cs @ [fst ?q]) (snd ?q) (Suc s)) =
          buildCentroids (deref (snd ?q) vs) counts (deref (snd ?q) rows) g js
            (deref (snd ?q) (cs @ [fst ?q])) (Suc s)"
        using valid_alloc [OF Cons.prems(1)] valid_alloc [OF Cons.prems(2)]
          valid_alloc_new [OF Cons.prems(3)] js
        by (intro Cons.IH)
      then have "absC (buildCentroidsS vs counts rows g js (cs @ [fst ?q]) (snd ?q) (Suc s)) =
          buildCentroids (deref h vs) counts (deref h rows) g js (deref h cs @ [?c]) (Suc s)"
        by (simp only: deref_alloc [OF Cons.prems(1)] deref_alloc [OF Cons.prems(2)]
            deref_alloc_new [OF Cons.prems(3)])
      moreover have "randomIdx g s (length (deref h vs)) = Some r"
        using Some by (simp add: deref_def)
      ultimately show ?thesis using False Some deref_nth [OF r, of h]
        by (simp add: Let_def spread_def)
    qed
  qed
qed


lemma fresh_valid: "fresh h0 h cs \<Longrightarrow> list_all (\<lambda>a. a < length h) cs"
  by (simp add: fresh_def list_all_iff)

lemma frame_valid:
  "frame h0 h \<Longrightarrow> list_all (\<lambda>a. a < length h0) vs \<Longrightarrow> list_all (\<lambda>a. a < length h) vs"
  using frame_length [of h0 h] by (auto simp: list_all_iff)

lemma length_deref: "length (deref h vs) = length vs"
  by (simp add: deref_def)

lemma recalculateCentroidsS_refines:
  assumes "list_all (\<lambda>a. a < length h) vs"
  shows "absC (recalculateCentroidsS h vs asg k dimn g s) =
     recalculateCentroids (deref h vs) asg k dimn g s"
proof -
  define z where "z = replicate dimn (Fin 0)"
  define rows where "rows = [length h..<length h + k]"
  define h1 where "h1 = h @ replicate k z"
  have p: "allocRows h k dimn = (rows, h1)"
    by (simp add: allocRows_eq rows_def h1_def z_def)
  have nth: "h1 ! a = z" if "a \<in> set rows" for a
    using that by (auto simp: rows_def h1_def nth_append)
  have ok: "rows_ok h1 vs rows dimn"
    unfolding rows_ok_def list_all_iff
  proof (intro conjI ballI)
    show "distinct rows" by (simp add: rows_def)
  next
    fix a assume a: "a \<in> set rows"
    then show "a < length h1" by (auto simp: rows_def h1_def)
    show "a \<notin> set vs" using a assms by (auto simp: rows_def list_all_iff)
    show "length (h1 ! a) = dimn" using nth [OF a] by (simp add: z_def)
  qed
  have lr: "length rows = k" by (simp add: rows_def)
  have dr: "deref h1 rows = replicate k z"
    by (rule nth_equalityI) (auto simp: deref_def rows_def h1_def nth_append)
  have dv: "deref h1 vs = deref h vs"
    using assms by (simp add: deref_def h1_def list_all_iff nth_append)
  have js: "\<forall>i\<in>set [0..<length vs]. i < length vs" by simp
  from accumulateAllS_refines [OF ok lr js, of asg "replicate k 0"]
  consider (err) e where
      "accumulateAllS vs asg k dimn (replicate k 0, rows, h1) [0..<length vs] = Inl e"
      "accumulateAll (deref h vs) asg k dimn (replicate k 0, replicate k z) [0..<length vs] = Inl e"
    | (ok) counts' h' where
      "accumulateAllS vs asg k dimn (replicate k 0, rows, h1) [0..<length vs]
         = Inr (counts', rows, h')"
      "accumulateAll (deref h vs) asg k dimn (replicate k 0, replicate k z) [0..<length vs]
         = Inr (counts', deref h' rows)"
      "deref h' vs = deref h vs" "length h' = length h1" "rows_ok h' vs rows dimn"
    unfolding dr dv by blast
  then show ?thesis
  proof cases
    case err
    then show ?thesis
      by (simp add: recalculateCentroidsS_def recalculateCentroids_def p length_deref z_def)
  next
    case ok
    have v: "list_all (\<lambda>a. a < length h') vs"
      using assms ok(4) by (auto simp: h1_def list_all_iff)
    have r: "list_all (\<lambda>a. a < length h') rows"
      using ok(5) by (auto simp: rows_ok_def list_all_iff)
    have "absC (buildCentroidsS vs counts' rows g [0..<k] [] h' s) =
        buildCentroids (deref h' vs) counts' (deref h' rows) g [0..<k] (deref h' []) s"
      using v r lr by (intro buildCentroidsS_refines) simp_all
    moreover have "deref h' [] = []" by (simp add: deref_def)
    ultimately have "absC (buildCentroidsS vs counts' rows g [0..<k] [] h' s) =
        buildCentroids (deref h vs) counts' (deref h' rows) g [0..<k] [] s"
      by (simp only: ok(3))
    then show ?thesis using ok(1,2)
      by (simp add: recalculateCentroidsS_def recalculateCentroids_def p length_deref z_def)
  qed
qed

lemma mainLoopS_refines:
  "list_all (\<lambda>a. a < length h) vs \<Longrightarrow> list_all (\<lambda>a. a < length h) cs \<Longrightarrow>
   absR (mainLoopS h vs k dimn maxIter tol g iter cs assignments iterations s) =
     mainLoop (deref h vs) k dimn maxIter tol g iter (deref h cs) assignments iterations s"
proof (induction h vs k dimn maxIter tol g iter cs assignments iterations s
    rule: mainLoopS.induct)
  case (1 h vs k dimn maxIter tol g iter cs assignments iterations s)
  let ?new = "assignAll (deref h vs) (deref h cs)"
  let ?conv = "converged (changed ?new assignments (length vs)) (length vs) tol"
  show ?case
  proof (cases "iter < maxIter \<and> \<not> ?conv")
    case False
    then show ?thesis
      by (auto simp: mainLoopS.simps [of h vs k dimn maxIter tol g iter]
          mainLoop.simps [of "deref h vs" k dimn maxIter tol g iter] Let_def length_deref)
  next
    case True
    then have t: "iter < maxIter" "\<not> ?conv" by simp_all
    show ?thesis
    proof (cases "recalculateCentroidsS h vs ?new k dimn g s")
      case (Inl e)
      then have "recalculateCentroids (deref h vs) ?new k dimn g s = Inl e"
        using recalculateCentroidsS_refines [OF "1.prems"(1), of ?new k dimn g s] by simp
      then show ?thesis using t Inl
        by (simp add: mainLoopS.simps [of h vs k dimn maxIter tol g iter]
            mainLoop.simps [of "deref h vs" k dimn maxIter tol g iter] Let_def length_deref)
    next
      case (Inr q)
      obtain cs1 h1 s1 where q: "q = (cs1, h1, s1)" by (cases q)
      have r: "recalculateCentroidsS h vs ?new k dimn g s = Inr (cs1, h1, s1)"
        using Inr q by simp
      from recalculateCentroidsS_frame [OF frame_refl r]
      have f: "frame h h1" "fresh h h1 cs1" by simp_all
      have v: "list_all (\<lambda>a. a < length h1) vs" using frame_valid [OF f(1) "1.prems"(1)] .
      have c: "list_all (\<lambda>a. a < length h1) cs1" using fresh_valid [OF f(2)] .
      have d: "deref h1 vs = deref h vs" using frame_deref [OF f(1) "1.prems"(1)] .
      have pr: "recalculateCentroids (deref h vs) ?new k dimn g s = Inr (deref h1 cs1, s1)"
        using recalculateCentroidsS_refines [OF "1.prems"(1), of ?new k dimn g s] r by simp
      from "1.IH" [OF t(1) refl t(2) r refl refl v c]
      have "absR (mainLoopS h1 vs k dimn maxIter tol g (Suc iter) cs1 ?new (iter + 1) s1) =
          mainLoop (deref h vs) k dimn maxIter tol g (Suc iter) (deref h1 cs1) ?new (iter + 1) s1"
        by (simp only: d)
      then show ?thesis using t r pr
        by (simp add: mainLoopS.simps [of h vs k dimn maxIter tol g iter]
            mainLoop.simps [of "deref h vs" k dimn maxIter tol g iter] Let_def length_deref)
    qed
  qed
qed

lemma kMeansClusteringS_refines:
  assumes "list_all (\<lambda>a. a < length h) vs"
  shows "absR (kMeansClusteringS h vs options g s) = kMeansClustering (deref h vs) options g s"
proof (cases "vs = [] \<or> length vs < opt_k options")
  case True
  then show ?thesis
    by (auto simp: kMeansClusteringS_def kMeansClustering_def Let_def deref_def)
next
  case False
  then have n: "vs \<noteq> []" "\<not> length vs < opt_k options" by simp_all
  have hd: "length (hd (deref h vs)) = length (h ! hd vs)"
    using n(1) by (cases vs) (simp_all add: deref_def)
  show ?thesis
  proof (cases "initializeCentroidsS h vs (opt_k options) g s")
    case (Inl e)
    then have "initializeCentroids (deref h vs) (opt_k options) g s = Inl e"
      using initializeCentroidsS_refines [OF assms, of "opt_k options" g s] by simp
    then show ?thesis using n Inl
      by (simp add: kMeansClusteringS_def kMeansClustering_def Let_def deref_def)
  next
    case (Inr q)
    obtain cs h1 s1 where q: "q = (cs, h1, s1)" by (cases q)
    have i: "initializeCentroidsS h vs (opt_k options) g s = Inr (cs, h1, s1)"
      using Inr q by simp
    from initializeCentroidsS_frame [OF i] have f: "frame h h1" "fresh h h1 cs" by simp_all
    have v: "list_all (\<lambda>a. a < length h1) vs" using frame_valid [OF f(1) assms] .
    have c: "list_all (\<lambda>a. a < length h1) cs" using fresh_valid [OF f(2)] .
    have d: "deref h1 vs = deref h vs" using frame_deref [OF f(1) assms] .
    have pi: "initializeCentroids (deref h vs) (opt_k options) g s = Inr (deref h1 cs, s1)"
      using initializeCentroidsS_refines [OF assms, of "opt_k options" g s] i by simp
    from mainLoopS_refines [OF v c] d
    have m: "absR (mainLoopS h1 vs k' dimn maxIter tol g 0 cs a 0 s1) =
        mainLoop (deref h vs) k' dimn maxIter tol g 0 (deref h1 cs) a 0 s1"
      for k' dimn maxIter tol a
      by simp
    have ne: "deref h vs \<noteq> []" using n(1) by (simp add: deref_def)
    show ?thesis using n i pi ne
      by (simp add: kMeansClusteringS_def kMeansClustering_def Let_def m hd length_deref)
  qed
qed

section \<open>The claims\<close>

subsection \<open>The converged pass\<close>




subsection \<open>Too few vectors, no vector\<close>

lemma kMeansClustering_too_few:
  "vectors \<noteq> [] \<Longrightarrow> length vectors < opt_k options \<Longrightarrow>
   kMeansClustering vectors options g s = Inl NotEnoughVectors"
  by (simp add: kMeansClustering_def)

text \<open>
  Claim C2. A non-empty input with fewer vectors than \<open>k\<close> fails with the error of
  line 143 (\<open>kMeansClustering_too_few\<close>). The empty input does not reach that guard:
  line 140 reads the length of \<^verbatim>\<open>vectors[0]\<close> first, and the run ends with a
  \<^verbatim>\<open>TypeError\<close>, whatever the options are.
\<close>

theorem kMeansClustering_empty_input:
  "kMeansClustering [] options g s = Inl TypeError"
  by (simp add: kMeansClustering_def)

subsection \<open>Vectors of unequal lengths\<close>

text \<open>
  Claim C3, as stated, fails: the entry point has no check of the vector lengths. Here the
  input holds a vector of length 2 and one of length 1, and the run returns a result.
\<close>

theorem unequal_lengths_accepted:
  "kMeansClustering [[Fin 1, Fin 2], [Fin 3]]
     \<lparr>opt_k = 1, opt_maxIterations = None, opt_tolerance = None\<rparr> (always 0) 0
   = Inr (\<lparr>centroids_of = [[Fin 1, Fin 2]], assignments_of = [0, 0], iterations_of = 1\<rparr>, 1)"
  by (simp add: kMeansClustering_def initializeCentroids_def randomIdx_def assignAll_def
     assignToCentroid_def assignStep_def euclideanDistance_def num_at_def jsub_def changed_def
     converged_def seedLoop.simps mainLoop.simps)

lemma fair_const: "fair (always (1 / 2))"
  by (simp add: fair_def)

text \<open>
  Claim C3, amended. The entry point makes no check of the vector lengths: every non-empty
  input with \<open>1 \<le> k \<le> n\<close>, its vectors of equal lengths or not, is clustered without
  any error being raised.
\<close>

theorem kMeansClustering_no_dimension_check:
  assumes "vectors \<noteq> []" "fair g" "1 \<le> opt_k options" "opt_k options \<le> length vectors"
  shows "\<exists>res s'. kMeansClustering vectors options g s = Inr (res, s')"
  using kMeansClustering_total [OF assms] by blast

theorem kMeansClustering_no_dimension_check_witness:
  "[[Fin 0], [Fin 1, Fin 2], []] \<noteq> [] \<and> fair (always (1 / 2)) \<and>
   1 \<le> opt_k \<lparr>opt_k = 2, opt_maxIterations = Some 3, opt_tolerance = None\<rparr> \<and>
   opt_k \<lparr>opt_k = 2, opt_maxIterations = Some 3, opt_tolerance = None\<rparr>
     \<le> length [[Fin 0], [Fin 1, Fin 2], []] \<and>
   (\<exists>res s'. kMeansClustering [[Fin 0], [Fin 1, Fin 2], []]
       \<lparr>opt_k = 2, opt_maxIterations = Some 3, opt_tolerance = None\<rparr> (always (1 / 2)) 0
     = Inr (res, s'))"
  using kMeansClustering_no_dimension_check [of "[[Fin 0], [Fin 1, Fin 2], []]" "always (1 / 2)"
      "\<lparr>opt_k = 2, opt_maxIterations = Some 3, opt_tolerance = None\<rparr>" 0]
  by (simp add: fair_const)

subsection \<open>The number of centroids\<close>







subsection \<open>The number of passes\<close>






subsection \<open>Tolerance zero\<close>

lemma mainLoop_zero_tolerance_passes:
  "iter \<le> maxIter \<Longrightarrow>
   mainLoop vectors k dimn maxIter (Fin 0) g iter centroids assignments iterations s =
     (case runPasses vectors k dimn g (maxIter - iter) centroids assignments s of
        Inl e \<Rightarrow> Inl e
      | Inr (cs, as, s') \<Rightarrow>
          Inr (\<lparr>centroids_of = cs, assignments_of = as,
                iterations_of = (if iter < maxIter then maxIter else iterations)\<rparr>, s'))"
proof (induction vectors k dimn maxIter "Fin 0" g iter centroids assignments iterations s
    rule: mainLoop.induct)
  case (1 vectors k dimn maxIter g iter centroids assignments iterations s)
  let ?new = "assignAll vectors centroids"
  show ?case
  proof (cases "iter < maxIter")
    case False
    then have e: "iter = maxIter" using "1.prems" by simp
    show ?thesis unfolding e
      by (simp add: mainLoop.simps [of vectors k dimn maxIter "Fin 0" g maxIter])
  next
    case True
    have c: "\<not> converged (changed ?new assignments (length vectors)) (length vectors) (Fin 0)"
      by (rule converged_zero)
    have m: "maxIter - iter = Suc (maxIter - Suc iter)" using True by simp
    show ?thesis
    proof (cases "recalculateCentroids vectors ?new k dimn g s")
      case (Inl e)
      then show ?thesis using True c
        by (simp add: mainLoop.simps [of vectors k dimn maxIter "Fin 0" g iter] Let_def m)
    next
      case (Inr p)
      obtain cs s1 where p: "p = (cs, s1)" by (cases p)
      have le: "Suc iter \<le> maxIter" using True by simp
      from "1.hyps" [OF True refl c Inr [unfolded p] refl le]
      have ih: "mainLoop vectors k dimn maxIter (Fin 0) g (Suc iter) cs ?new (iter + 1) s1 =
         (case runPasses vectors k dimn g (maxIter - Suc iter) cs ?new s1 of
            Inl e \<Rightarrow> Inl e
          | Inr (cs', as, s') \<Rightarrow>
              Inr (\<lparr>centroids_of = cs', assignments_of = as,
                    iterations_of = (if Suc iter < maxIter then maxIter else iter + 1)\<rparr>, s'))" .
      have it: "(if Suc iter < maxIter then maxIter else iter + 1) = maxIter"
        using True by simp
      have ih2: "mainLoop vectors k dimn maxIter (Fin 0) g (Suc iter) cs ?new (Suc iter) s1 =
         (case runPasses vectors k dimn g (maxIter - Suc iter) cs ?new s1 of
            Inl e \<Rightarrow> Inl e
          | Inr (cs', as, s') \<Rightarrow>
              Inr (\<lparr>centroids_of = cs', assignments_of = as, iterations_of = maxIter\<rparr>, s'))"
        using ih it
        by (cases "runPasses vectors k dimn g (maxIter - Suc iter) cs ?new s1")
          (auto split: prod.splits)
      show ?thesis using True c Inr p
        by (simp add: mainLoop.simps [of vectors k dimn maxIter "Fin 0" g iter] Let_def m ih2)
    qed
  qed
qed

lemma kMeansClustering_zero_tolerance_passes:
  assumes "opt_tolerance options = Some (Fin 0)"
    and "maxIter = (case opt_maxIterations options of None \<Rightarrow> 100 | Some m \<Rightarrow> m)"
    and "vectors \<noteq> []" "opt_k options \<le> length vectors"
  shows "kMeansClustering vectors options g s =
     (case initializeCentroids vectors (opt_k options) g s of
        Inl e \<Rightarrow> Inl e
      | Inr (cs0, s0) \<Rightarrow>
          (case runPasses vectors (opt_k options) (length (hd vectors)) g maxIter cs0
                  (replicate (length vectors) 0) s0 of
             Inl e \<Rightarrow> Inl e
           | Inr (cs, as, s') \<Rightarrow>
               Inr (\<lparr>centroids_of = cs, assignments_of = as, iterations_of = maxIter\<rparr>, s')))"
proof (cases "initializeCentroids vectors (opt_k options) g s")
  case (Inl e)
  then show ?thesis using assms by (simp add: kMeansClustering_def Let_def)
next
  case (Inr p)
  obtain cs0 s0 where p: "p = (cs0, s0)" by (cases p)
  have "(if 0 < maxIter then maxIter else 0) = maxIter" by simp
  then show ?thesis using assms Inr p
      mainLoop_zero_tolerance_passes [of 0 maxIter vectors "opt_k options" "length (hd vectors)"
        g cs0 "replicate (length vectors) 0" 0 s0]
    by (simp add: kMeansClustering_def Let_def)
qed

text \<open>
  Claim C10. With \<open>tolerance = 0\<close> the convergence test fails on every pass. So a run
  is the seeding followed by exactly \<open>maxIterations\<close> passes made in full, each with its
  assignment and its centroid update and none ended by the test (\<open>runPasses\<close>): the
  centroids it returns are those of the last update, the assignment is the one of the last
  pass, and the number of passes it reports is \<open>maxIterations\<close>. On a valid input the run
  does return.
\<close>

theorem zero_tolerance_runs_to_cap:
  assumes "opt_tolerance options = Some (Fin 0)"
    and "maxIter = (case opt_maxIterations options of None \<Rightarrow> 100 | Some m \<Rightarrow> m)"
  shows "(\<forall>c n. \<not> converged c n (Fin 0)) \<and>
     (\<forall>res s'. kMeansClustering vectors options g s = Inr (res, s') \<longrightarrow>
        iterations_of res = maxIter) \<and>
     (vectors \<noteq> [] \<and> fair g \<and> 1 \<le> opt_k options \<and> opt_k options \<le> length vectors \<longrightarrow>
        (\<exists>res s'. kMeansClustering vectors options g s = Inr (res, s'))) \<and>
     (vectors \<noteq> [] \<and> opt_k options \<le> length vectors \<longrightarrow>
        kMeansClustering vectors options g s =
          (case initializeCentroids vectors (opt_k options) g s of
             Inl e \<Rightarrow> Inl e
           | Inr (cs0, s0) \<Rightarrow>
               (case runPasses vectors (opt_k options) (length (hd vectors)) g maxIter cs0
                       (replicate (length vectors) 0) s0 of
                  Inl e \<Rightarrow> Inl e
                | Inr (cs, as, s') \<Rightarrow>
                    Inr (\<lparr>centroids_of = cs, assignments_of = as,
                          iterations_of = maxIter\<rparr>, s'))))"
proof -
  have "iterations_of res = maxIter"
    if r: "kMeansClustering vectors options g s = Inr (res, s')" for res s'
  proof (cases "initializeCentroids vectors (opt_k options) g s")
    case (Inl e)
    then show ?thesis using r
      by (simp add: kMeansClustering_def Let_def split: if_splits)
  next
    case (Inr p)
    obtain cs s0 where p: "p = (cs, s0)" by (cases p)
    have "mainLoop vectors (opt_k options) (length (hd vectors)) maxIter (Fin 0) g 0 cs
        (replicate (length vectors) 0) 0 s0 = Inr (res, s')"
      using r Inr p assms by (simp add: kMeansClustering_def Let_def split: if_splits)
    from mainLoop_zero_tolerance [OF this] show ?thesis by (simp split: if_splits)
  qed
  moreover have "\<exists>res s'. kMeansClustering vectors options g s = Inr (res, s')"
    if "vectors \<noteq> []" "fair g" "1 \<le> opt_k options" "opt_k options \<le> length vectors"
    using kMeansClustering_total [OF that] by blast
  moreover note kMeansClustering_zero_tolerance_passes [OF assms, of vectors g s]
  ultimately show ?thesis using converged_zero by blast
qed

lemma zero_tolerance_example:
  "kMeansClustering [[Fin 0], [Fin 4]]
     \<lparr>opt_k = 1, opt_maxIterations = Some 1, opt_tolerance = Some (Fin 0)\<rparr> (always (1 / 2)) 0
   = Inr (\<lparr>centroids_of = [[Fin 2]], assignments_of = [0, 0], iterations_of = 1\<rparr>, 1)"
  by (simp add: kMeansClustering_def initializeCentroids_def randomIdx_def seedLoop.simps
      mainLoop.simps assignAll_def assignToCentroid_def assignStep_def euclideanDistance_def
      num_at_def jsub_def changed_def converged_def recalculateCentroids_def accumulate_def
      numeral_2_eq_2 upt_rec)

theorem zero_tolerance_runs_to_cap_witness:
  "kMeansClustering [[Fin 0], [Fin 4]]
     \<lparr>opt_k = 1, opt_maxIterations = Some 1, opt_tolerance = Some (Fin 0)\<rparr> (always (1 / 2)) 0
     = Inr (\<lparr>centroids_of = [[Fin 2]], assignments_of = [0, 0], iterations_of = 1\<rparr>, 1) \<and>
   runPasses [[Fin 0], [Fin 4]] 1 1 (always (1 / 2)) 1 [[Fin 4]] [0, 0] 1
     = Inr ([[Fin 2]], [0, 0], 1)"
proof -
  let ?o = "\<lparr>opt_k = 1, opt_maxIterations = Some 1, opt_tolerance = Some (Fin 0)\<rparr>"
  let ?V = "[[Fin 0], [Fin 4]]"
  have h: "opt_tolerance ?o = Some (Fin 0)"
    "(1::nat) = (case opt_maxIterations ?o of None \<Rightarrow> 100 | Some m \<Rightarrow> m)"
    by simp_all
  have i: "initializeCentroids ?V (opt_k ?o) (always (1 / 2)) 0 = Inr ([[Fin 4]], 1)"
    by (simp add: initializeCentroids_def randomIdx_def seedLoop.simps)
  have v: "?V \<noteq> [] \<and> opt_k ?o \<le> length ?V" by simp
  from zero_tolerance_runs_to_cap [OF h, of ?V "always (1 / 2)" 0] v
  have "kMeansClustering ?V ?o (always (1 / 2)) 0 =
      (case initializeCentroids ?V (opt_k ?o) (always (1 / 2)) 0 of
         Inl e \<Rightarrow> Inl e
       | Inr (cs0, s0) \<Rightarrow>
           (case runPasses ?V (opt_k ?o) (length (hd ?V)) (always (1 / 2)) 1 cs0
                   (replicate (length ?V) 0) s0 of
              Inl e \<Rightarrow> Inl e
            | Inr (cs, as, s') \<Rightarrow>
                Inr (\<lparr>centroids_of = cs, assignments_of = as, iterations_of = 1\<rparr>, s')))"
    by blast
  then have "(case runPasses ?V 1 1 (always (1 / 2)) 1 [[Fin 4]] [0, 0] 1 of
        Inl e \<Rightarrow> Inl e
      | Inr (cs, as, s') \<Rightarrow>
          Inr (\<lparr>centroids_of = cs, assignments_of = as, iterations_of = 1\<rparr>, s'))
      = Inr (\<lparr>centroids_of = [[Fin 2]], assignments_of = [0, 0], iterations_of = 1\<rparr>, 1)"
    using zero_tolerance_example i by (simp add: numeral_2_eq_2)
  then have "runPasses ?V 1 1 (always (1 / 2)) 1 [[Fin 4]] [0, 0] 1 = Inr ([[Fin 2]], [0, 0], 1)"
    by (auto split: sum.splits)
  then show ?thesis using zero_tolerance_example by simp
qed

subsection \<open>Cosine similarity with a zero norm\<close>

text \<open>
  Claim C8, as stated, fails. For \<open>a = [huge]\<close> and \<open>b = [0]\<close> the norm of \<open>b\<close> is 0,
  but the square of \<open>huge\<close> overflows: the norm of \<open>a\<close> is \<open>Infinity\<close>, the magnitude
  \<open>Infinity * 0\<close> is \<open>NaN\<close>, the test \<^verbatim>\<open>magnitude === 0\<close> fails, and the division of
  the dot product 0 by \<open>NaN\<close> is returned: \<open>NaN\<close>, not 0.
\<close>

theorem zero_norm_overflow:
  "jsqrt (normB [Fin huge] [Fin 0]) = Fin 0 \<and>
   jsqrt (normA [Fin huge] [Fin 0]) = PInf \<and>
   magnitude [Fin huge] [Fin 0] = NaN \<and>
   dotProduct [Fin huge] [Fin 0] = Fin 0 \<and>
   cosineSimilarity [Fin huge] [Fin 0] = NaN"
  by (simp add: cosineSimilarity_def magnitude_def normA_def normB_def dotProduct_def num_at_def
      jeq_def double_round_zero double_round_huge_square)

text \<open>
  Claim C8, amended. When the norm of one of the vectors (the square root the function
  computes) is 0 and both norms are finite numbers, so that neither sum of squares
  has overflowed or met a \<open>NaN\<close>, the magnitude is 0, the test \<^verbatim>\<open>magnitude === 0\<close>
  succeeds, so that the branch with the division is not taken, and the result is exactly
  0.
\<close>

theorem cosineSimilarity_zero_norm:
  assumes "jsqrt (normA a b) = Fin 0 \<or> jsqrt (normB a b) = Fin 0"
    and "is_fin (jsqrt (normA a b))" "is_fin (jsqrt (normB a b))"
  shows "cosineSimilarity a b = Fin 0 \<and> jeq (magnitude a b) (Fin 0)"
proof -
  from assms(2,3) obtain x y where
    n: "jsqrt (normA a b) = Fin x" "jsqrt (normB a b) = Fin y"
    by (auto simp: is_fin_iff)
  then have "x = 0 \<or> y = 0" using assms(1) by simp
  then have "magnitude a b = Fin 0" using n by (auto simp: magnitude_def double_round_zero)
  then show ?thesis by (simp add: cosineSimilarity_def jeq_def)
qed

lemma sqrt_twenty_five: "sqrt 25 = 5"
  by (rule real_sqrt_unique) simp_all

theorem cosineSimilarity_zero_norm_witness:
  "jsqrt (normA [Fin 0, Fin 0] [Fin 3, Fin 4]) = Fin 0 \<and>
   jsqrt (normB [Fin 0, Fin 0] [Fin 3, Fin 4]) = Fin 5 \<and>
   cosineSimilarity [Fin 0, Fin 0] [Fin 3, Fin 4] = Fin 0"
proof -
  have a: "jsqrt (normA [Fin 0, Fin 0] [Fin 3, Fin 4]) = Fin 0"
    by (simp add: normA_def num_at_def double_round_zero)
  have b: "jsqrt (normB [Fin 0, Fin 0] [Fin 3, Fin 4]) = Fin 5"
    by (simp add: normB_def num_at_def double_round_zero double_round_numeral sqrt_twenty_five)
  have "jsqrt (normA [Fin 0, Fin 0] [Fin 3, Fin 4]) = Fin 0 \<or>
      jsqrt (normB [Fin 0, Fin 0] [Fin 3, Fin 4]) = Fin 0"
    "is_fin (jsqrt (normA [Fin 0, Fin 0] [Fin 3, Fin 4]))"
    "is_fin (jsqrt (normB [Fin 0, Fin 0] [Fin 3, Fin 4]))"
    by (simp_all only: a b is_fin.simps simp_thms)
  from cosineSimilarity_zero_norm [OF this] show ?thesis using a b by simp
qed

subsection \<open>Vectors of weight zero in the seeding\<close>

text \<open>
  Claim C6, as stated, fails in two ways. When the draw of \<^verbatim>\<open>Math.random()\<close> is 0,
  the vector at index 0 is pushed although its weight is 0 and another vector has weight
  1; and when every vector coincides with a centroid already chosen, all weights are 0 and
  the vector at index 0 is pushed again.
\<close>

theorem zero_weight_selected:
  "seedDistances [[Fin 1], [Fin 2]] [[Fin 1]] = [Fin 0, Fin 1] \<and>
   pickIndex (seedDistances [[Fin 1], [Fin 2]] [[Fin 1]])
     (jmul (Fin 0) (totalDist (seedDistances [[Fin 1], [Fin 2]] [[Fin 1]]))) 0 = Some 0 \<and>
   initializeCentroids [[Fin 1], [Fin 2]] 2 (always 0) 0 = Inr ([[Fin 1], [Fin 1]], 2) \<and>
   seedDistances [[Fin 1], [Fin 1]] [[Fin 1]] = [Fin 0, Fin 0] \<and>
   pickIndex (seedDistances [[Fin 1], [Fin 1]] [[Fin 1]])
     (jmul (Fin (1 / 2)) (totalDist (seedDistances [[Fin 1], [Fin 1]] [[Fin 1]]))) 0 = Some 0 \<and>
   initializeCentroids [[Fin 1], [Fin 1]] 2 (always (1 / 2)) 0 = Inr ([[Fin 1], [Fin 1]], 2)"
  by (simp add: initializeCentroids_def randomIdx_def seedDistances_def totalDist_def
      math_min_def jmin2_def euclideanDistance_def num_at_def jsub_def seedLoop.simps)

text \<open>
  Claim C6, amended. In a round of the seeding with weights \<open>distances\<close> and draw
  \<open>r = Math.random() * totalDist\<close>: whenever \<open>r\<close> is positive, the vector pushed has
  a positive weight, so that no vector of weight 0 is selected; and when all weights are 0,
  the vector at index 0 is pushed.
\<close>

theorem positive_draw_positive_weight:
  assumes "distances = seedDistances vectors centroids"
    and "r = jmul (Fin u) (totalDist distances)"
  shows "(jlt (Fin 0) r \<and> pickIndex distances r 0 = Some j \<longrightarrow>
            j < length vectors \<and> jlt (Fin 0) (distances ! j)) \<and>
         (vectors \<noteq> [] \<and> (\<forall>d\<in>set distances. d = Fin 0) \<longrightarrow> pickIndex distances r 0 = Some 0)"
proof -
  have len: "length distances = length vectors"
    by (simp add: assms(1) seedDistances_def)
  have "j < length vectors \<and> jlt (Fin 0) (distances ! j)"
    if "jlt (Fin 0) r" "pickIndex distances r 0 = Some j"
    using pickIndex_positive [OF that(2,1)] len on_grid_jmul [of "Fin u" "totalDist distances"]
    by (simp add: assms(2))
  moreover have "pickIndex distances r 0 = Some 0"
    if "vectors \<noteq> []" "\<forall>d\<in>set distances. d = Fin 0"
  proof -
    have "distances \<noteq> []" using that(1) len by auto
    from pickIndex_zero_weights [OF this that(2)] show ?thesis using assms(2) by simp
  qed
  ultimately show ?thesis by blast
qed

theorem positive_draw_positive_weight_witness:
  "jlt (Fin 0) (jmul (Fin (1 / 2)) (totalDist [Fin 0, Fin 1])) \<and>
   pickIndex [Fin 0, Fin 1] (jmul (Fin (1 / 2)) (totalDist [Fin 0, Fin 1])) 0 = Some 1 \<and>
   jlt (Fin 0) ([Fin 0, Fin 1] ! 1)"
proof -
  have h: "[Fin 0, Fin 1] = seedDistances [[Fin 1], [Fin 2]] [[Fin 1]]"
    "jmul (Fin (1 / 2)) (totalDist [Fin 0, Fin 1])
       = jmul (Fin (1 / 2)) (totalDist [Fin 0, Fin 1])"
    by (simp_all add: seed_example)
  have a: "jlt (Fin 0) (jmul (Fin (1 / 2)) (totalDist [Fin 0, Fin 1]))"
    "pickIndex [Fin 0, Fin 1] (jmul (Fin (1 / 2)) (totalDist [Fin 0, Fin 1])) 0 = Some 1"
    by (simp_all add: totalDist_def jsub_def)
  from positive_draw_positive_weight [OF h, of 1] a
  have "jlt (Fin 0) ([Fin 0, Fin 1] ! 1)" by blast
  then show ?thesis using a by blast
qed

subsection \<open>Cluster representatives\<close>

text \<open>
  Claim C7, as stated, fails. Take the vectors \<open>[huge]\<close> and \<open>[1]\<close>, both assigned to
  the centroid \<open>[huge]\<close>. The similarity of \<open>[huge]\<close> and the centroid is \<open>NaN\<close> (both
  norms overflow, and \<open>Infinity / Infinity\<close> is \<open>NaN\<close>); that of \<open>[1]\<close> and the centroid is
  0 (a finite dot product divided by \<open>Infinity\<close>). The list of the cluster holds both
  posts, and in neither of its two orders is it in non-increasing order of similarity:
  \<open>NaN\<close> is neither at least 0 nor at most 0.
\<close>

theorem representatives_not_sorted:
  "getClusterRepresentatives id [[Fin huge], [Fin 1]] [''a'', ''b''] [[Fin huge]] [0, 0] (Some 2)
     = Inr [[\<lparr>cluster_of = 0, posts_of = [''a''], similarity_of = NaN\<rparr>,
             \<lparr>cluster_of = 0, posts_of = [''b''], similarity_of = Fin 0\<rparr>]] \<and>
   getClusterRepresentatives rev [[Fin huge], [Fin 1]] [''a'', ''b''] [[Fin huge]] [0, 0] (Some 2)
     = Inr [[\<lparr>cluster_of = 0, posts_of = [''b''], similarity_of = Fin 0\<rparr>,
             \<lparr>cluster_of = 0, posts_of = [''a''], similarity_of = NaN\<rparr>]] \<and>
   \<not> jle (Fin 0) NaN \<and> \<not> jle NaN (Fin 0)"
proof -
  have c: "cosineSimilarity [Fin huge] [Fin huge] = NaN" "cosineSimilarity [Fin 1] [Fin huge] = Fin 0"
    by (simp_all add: cosineSimilarity_def magnitude_def normA_def normB_def dotProduct_def
        num_at_def jeq_def double_round_zero double_round_one double_round_huge
        double_round_huge_square)
  show ?thesis
    by (simp add: getClusterRepresentatives_def c sortBySimilarity_def numeral_2_eq_2 upt_rec)
qed

text \<open>
  Claim C7, amended. When every post has a vector and the engine's sort returns as many
  elements as it is given, \<^verbatim>\<open>getClusterRepresentatives\<close> raises no error and returns
  one list per centroid; the list of cluster \<open>c\<close> has exactly as many elements as the
  minimum of \<open>topN\<close> (5 when absent) and the number of members of \<open>c\<close>, which is none for
  a cluster without members. When the similarities of the members of \<open>c\<close> are all
  finite numbers, the list of \<open>c\<close> is made of the first \<open>topN\<close> elements of a
  rearrangement of the members of \<open>c\<close> that is in non-increasing order of cosine
  similarity to the centroid of \<open>c\<close>, and is in that order itself.
\<close>

theorem representatives_of_cluster:
  assumes "length posts \<le> length vectors"
    and "\<forall>xs. length (engine xs) = length xs"
    and "n = (case topN of None \<Rightarrow> 5 | Some t \<Rightarrow> t)"
  shows "\<exists>reps. getClusterRepresentatives engine vectors posts centroids assignments topN = Inr reps \<and>
     length reps = length centroids \<and>
     (\<forall>c<length centroids.
        length (reps ! c) = min n (length (clusterMembers vectors posts centroids assignments c)) \<and>
        (list_all (\<lambda>m. is_fin (snd m)) (clusterMembers vectors posts centroids assignments c) \<longrightarrow>
           sorted_wrt (\<lambda>a b. jle (similarity_of b) (similarity_of a)) (reps ! c) \<and>
           (\<exists>ys. mset ys = mset (clusterMembers vectors posts centroids assignments c) \<and>
              sorted_wrt (\<lambda>a b. jle (snd b) (snd a)) ys \<and>
              reps ! c =
                map (\<lambda>m. \<lparr>cluster_of = c, posts_of = [fst m], similarity_of = snd m\<rparr>)
                  (take n ys))))"
proof -
  let ?M = "clusterMembers vectors posts centroids assignments"
  let ?mk = "\<lambda>c m. \<lparr>cluster_of = c, posts_of = [fst m], similarity_of = snd m\<rparr>"
  let ?reps = "map (\<lambda>c. map (?mk c) (take n (sortBySimilarity engine (?M c)))) [0..<length centroids]"
  have r: "getClusterRepresentatives engine vectors posts centroids assignments topN = Inr ?reps"
    using representativesFrom_members [OF assms(1)]
    by (simp add: getClusterRepresentatives_def assms(3))
  have "length (?reps ! c) = min n (length (?M c))" if "c < length centroids" for c
    using that length_sortBySimilarity [OF assms(2)] by (simp add: min.commute)
  moreover have "sorted_wrt (\<lambda>a b. jle (similarity_of b) (similarity_of a)) (?reps ! c) \<and>
      (\<exists>ys. mset ys = mset (?M c) \<and> sorted_wrt (\<lambda>a b. jle (snd b) (snd a)) ys \<and>
         ?reps ! c = map (?mk c) (take n ys))"
    if c: "c < length centroids" and f: "list_all (\<lambda>m. is_fin (snd m)) (?M c)" for c
  proof -
    let ?ys = "foldr sortInsert (?M c) []"
    have s: "sortBySimilarity engine (?M c) = ?ys" using f by (simp add: sortBySimilarity_def)
    have "\<forall>y\<in>set (?M c). is_fin (snd y) \<and> on_grid (snd y)"
      using f clusterMembers_on_grid [of vectors posts centroids assignments c]
      by (simp add: list_all_iff)
    then have srt: "sorted_wrt (\<lambda>a b. jle (snd b) (snd a)) ?ys"
      by (rule foldr_sortInsert_sorted)
    then have "sorted_wrt (\<lambda>a b. jle (snd b) (snd a)) (take n ?ys)"
      by (rule sorted_wrt_take)
    then have "sorted_wrt (\<lambda>a b. jle (similarity_of b) (similarity_of a)) (?reps ! c)"
      using c by (simp add: s sorted_wrt_map)
    moreover have "?reps ! c = map (?mk c) (take n ?ys)" using c by (simp add: s)
    ultimately show ?thesis using srt mset_foldr_sortInsert [of "?M c"] by blast
  qed
  ultimately show ?thesis using r by (intro exI [of _ ?reps]) simp
qed

lemma members_example:
  "clusterMembers [[Fin 1, Fin 0], [Fin 0, Fin 1], [Fin 1, Fin 0]] [''a'', ''b'', ''c'']
     [[Fin 1, Fin 0], [Fin 5, Fin 5]] [0, 0, 0] 0
   = [(''a'', Fin 1), (''b'', Fin 0), (''c'', Fin 1)]"
  by (simp add: clusterMembers_def cosineSimilarity_def magnitude_def normA_def normB_def
      dotProduct_def num_at_def jeq_def numeral_3_eq_3 upt_rec double_round_zero double_round_one)

theorem representatives_of_cluster_witness:
  "\<exists>reps. getClusterRepresentatives id [[Fin 1, Fin 0], [Fin 0, Fin 1], [Fin 1, Fin 0]]
       [''a'', ''b'', ''c''] [[Fin 1, Fin 0], [Fin 5, Fin 5]] [0, 0, 0] (Some 2) = Inr reps \<and>
     length reps = 2 \<and>
     clusterMembers [[Fin 1, Fin 0], [Fin 0, Fin 1], [Fin 1, Fin 0]] [''a'', ''b'', ''c'']
       [[Fin 1, Fin 0], [Fin 5, Fin 5]] [0, 0, 0] 0
       = [(''a'', Fin 1), (''b'', Fin 0), (''c'', Fin 1)] \<and>
     sorted_wrt (\<lambda>a b. jle (similarity_of b) (similarity_of a)) (reps ! 0) \<and>
     reps ! 0 = [\<lparr>cluster_of = 0, posts_of = [''a''], similarity_of = Fin 1\<rparr>,
                 \<lparr>cluster_of = 0, posts_of = [''c''], similarity_of = Fin 1\<rparr>] \<and>
     reps ! 1 = []"
proof -
  let ?V = "[[Fin 1, Fin 0], [Fin 0, Fin 1], [Fin 1, Fin 0]]"
  let ?C = "[[Fin 1, Fin 0], [Fin 5, Fin 5]]"
  let ?P = "[''a'', ''b'', ''c'']"
  have h: "length ?P \<le> length ?V" "\<forall>xs :: (string \<times> jsnum) list. length (id xs) = length xs"
    "(2::nat) = (case Some 2 of None \<Rightarrow> 5 | Some t \<Rightarrow> t)"
    by simp_all
  from representatives_of_cluster [OF h, of ?C "[0, 0, 0]"] obtain reps where
    r: "getClusterRepresentatives id ?V ?P ?C [0, 0, 0] (Some 2) = Inr reps"
      "length reps = length ?C"
      "\<forall>c<length ?C.
        length (reps ! c) = min 2 (length (clusterMembers ?V ?P ?C [0, 0, 0] c)) \<and>
        (list_all (\<lambda>m. is_fin (snd m)) (clusterMembers ?V ?P ?C [0, 0, 0] c) \<longrightarrow>
           sorted_wrt (\<lambda>a b. jle (similarity_of b) (similarity_of a)) (reps ! c) \<and>
           (\<exists>ys. mset ys = mset (clusterMembers ?V ?P ?C [0, 0, 0] c) \<and>
              sorted_wrt (\<lambda>a b. jle (snd b) (snd a)) ys \<and>
              reps ! c =
                map (\<lambda>m. \<lparr>cluster_of = c, posts_of = [fst m], similarity_of = snd m\<rparr>)
                  (take 2 ys)))"
    by blast
  have e: "reps = [[\<lparr>cluster_of = 0, posts_of = [''a''], similarity_of = Fin 1\<rparr>,
           \<lparr>cluster_of = 0, posts_of = [''c''], similarity_of = Fin 1\<rparr>], []]"
    using r(1) representatives_example by simp
  have "list_all (\<lambda>m. is_fin (snd m)) (clusterMembers ?V ?P ?C [0, 0, 0] 0)"
    by (simp add: members_example)
  then have "sorted_wrt (\<lambda>a b. jle (similarity_of b) (similarity_of a)) (reps ! 0)"
    using r(3) by simp
  then show ?thesis using r(1,2) e members_example by simp
qed

subsection \<open>Input vectors and centroids in the store\<close>

text \<open>
  Claim C9. When the input vectors are arrays of the store, a run on the store returns the
  values that \<open>kMeansClustering\<close> returns on the values of the vectors; the seeding and
  a complete run leave each input vector with the elements it had; every centroid they return is an array
  allocated during the call, hence none of the input vectors; and writing into an input
  vector afterwards changes no centroid.
\<close>

theorem inputs_unchanged_centroids_fresh:
  assumes "list_all (\<lambda>a. a < length h) vs"
  shows "absR (kMeansClusteringS h vs options g s) = kMeansClustering (deref h vs) options g s \<and>
         (initializeCentroidsS h vs k g s = Inr (cs, h1, s1) \<longrightarrow>
            deref h1 vs = deref h vs \<and> list_all (\<lambda>c. c \<notin> set vs) cs \<and>
            (\<forall>a\<in>set vs. \<forall>xs. deref (h1[a := xs]) cs = deref h1 cs)) \<and>
         (kMeansClusteringS h vs options g s = Inr (res, h', s') \<longrightarrow>
            deref h' vs = deref h vs \<and> list_all (\<lambda>c. c \<notin> set vs) (centroid_refs res) \<and>
            (\<forall>a\<in>set vs. \<forall>xs.
               deref (h'[a := xs]) (centroid_refs res) = deref h' (centroid_refs res)))"
proof -
  have "deref h1 vs = deref h vs \<and> list_all (\<lambda>c. c \<notin> set vs) cs \<and>
      (\<forall>a\<in>set vs. \<forall>xs. deref (h1[a := xs]) cs = deref h1 cs)"
    if "initializeCentroidsS h vs k g s = Inr (cs, h1, s1)"
  proof -
    from initializeCentroidsS_frame [OF that] have f: "frame h h1" "fresh h h1 cs" by simp_all
    from fresh_not_input [OF f(2) assms] have n: "list_all (\<lambda>c. c \<notin> set vs) cs" .
    show ?thesis
      using frame_deref [OF f(1) assms] n write_input_keeps_centroids [OF n] by blast
  qed
  moreover have "deref h' vs = deref h vs \<and> list_all (\<lambda>c. c \<notin> set vs) (centroid_refs res) \<and>
      (\<forall>a\<in>set vs. \<forall>xs.
         deref (h'[a := xs]) (centroid_refs res) = deref h' (centroid_refs res))"
    if "kMeansClusteringS h vs options g s = Inr (res, h', s')"
  proof -
    from kMeansClusteringS_frame [OF that]
    have f: "frame h h'" "fresh h h' (centroid_refs res)" by simp_all
    from fresh_not_input [OF f(2) assms]
    have n: "list_all (\<lambda>c. c \<notin> set vs) (centroid_refs res)" .
    show ?thesis
      using frame_deref [OF f(1) assms] n write_input_keeps_centroids [OF n] by blast
  qed
  ultimately show ?thesis using kMeansClusteringS_refines [OF assms] by blast
qed

theorem inputs_unchanged_centroids_fresh_witness:
  "\<exists>cs h1 s1 res h' s'.
     initializeCentroidsS [[Fin 0], [Fin 4]] [0, 1] 2 (always (1 / 2)) 0 = Inr (cs, h1, s1) \<and>
     cs = [2, 3] \<and> deref h1 [0, 1] = [[Fin 0], [Fin 4]] \<and>
     deref (h1[0 := [Fin 9]]) cs = [[Fin 4], [Fin 0]] \<and>
     kMeansClusteringS [[Fin 0], [Fin 4]] [0, 1]
       \<lparr>opt_k = 1, opt_maxIterations = Some 2, opt_tolerance = Some (Fin 0)\<rparr> (always (1 / 2)) 0
       = Inr (res, h', s') \<and>
     centroid_refs res = [6] \<and> deref h' [0, 1] = [[Fin 0], [Fin 4]] \<and>
     deref (h'[1 := [Fin 9]]) (centroid_refs res) = [[Fin 2]]"
proof -
  let ?h = "[[Fin 0], [Fin 4]]"
  let ?o = "\<lparr>opt_k = 1, opt_maxIterations = Some 2, opt_tolerance = Some (Fin 0)\<rparr>"
  let ?h1 = "[[Fin 0], [Fin 4], [Fin 4], [Fin 0]]"
  let ?h' = "[[Fin 0], [Fin 4], [Fin 4], [Fin 4], [Fin 2], [Fin 4], [Fin 2]]"
  let ?res = "\<lparr>centroid_refs = [6], assignmentsS = [0, 0], iterationsS = 2\<rparr>"
  have v: "list_all (\<lambda>a. a < length ?h) [0, 1]" by simp
  from inputs_unchanged_centroids_fresh [OF v, of ?o "always (1 / 2)" 0 2 "[2, 3]" ?h1 2 ?res ?h' 1]
    seed_run_example run_example
  have "deref ?h1 [0, 1] = deref ?h [0, 1]"
    "\<forall>a\<in>set [0, 1]. \<forall>xs. deref (?h1[a := xs]) [2, 3] = deref ?h1 [2, 3]"
    "deref ?h' [0, 1] = deref ?h [0, 1]"
    "\<forall>a\<in>set [0, 1]. \<forall>xs. deref (?h'[a := xs]) (centroid_refs ?res) = deref ?h' (centroid_refs ?res)"
    by blast+
  then have "deref ?h1 [0, 1] = [[Fin 0], [Fin 4]]"
    "deref (?h1[0 := [Fin 9]]) [2, 3] = [[Fin 4], [Fin 0]]"
    "deref ?h' [0, 1] = [[Fin 0], [Fin 4]]"
    "deref (?h'[1 := [Fin 9]]) (centroid_refs ?res) = [[Fin 2]]"
    by (simp_all add: deref_def)
  then show ?thesis using seed_run_example run_example by simp
qed

end
